theory Spec2Isabelle
  imports Complex_Main "HOL-Library.Char_ord" "HOL-Library.List_Lexorder" "HOL-Library.Multiset"
    "HOL-Library.Log_Nat"
begin

section \<open>The dashboard script \<open>app2.py\<close> as a function\<close>

text \<open>
  The script is a linear Streamlit page: it loads a table, reads four widgets, filters,
  orders and pivots the table with pandas, and renders a chart, three metrics and a summary
  table. One run of the script is modelled as the function \<open>render\<close> from the loaded
  table and the four widget values to either the exception that stops the run or the page
  that is shown. The pandas calls are modelled by what they compute on the columns the
  script uses:
  \<^item> a data frame is the list of its rows, in row order;
  \<^item> a missing value (NaN) in a column of labels is \<open>None\<close>;
  \<^item> \<open>article_count\<close> is an int64 column: its values are \<open>int\<close>s of that range, and a
    sum of them wraps around as the sum of pandas does (\<open>int64\<close>);
  \<^item> a float64 value is the rational it stands for, or NaN or an infinity where a division
    by zero produces one; every float64 operation rounds its exact result to 53 significant
    bits (\<open>fl\<close>);
  \<^item> \<open>numpy.argsort\<close>, which pandas calls to sort the totals, is a parameter of the run:
    its default sort is not stable, so the order it gives to equal totals depends on the
    numpy build;
  \<^item> an uncaught exception ends the run: nothing after it is rendered.

  The page layout, the static text, the colours of the chart, the keyword listing
  (lines 259-278) and the listing of the raw rows (lines 280-289) are left out.
\<close>

subsection \<open>Data model\<close>

record 'k row =
  language_code :: 'k
  subtopic :: string
  article_count :: int

datatype error = IndexError | ValueError

text \<open>float64 values that can be NaN or infinite (the \<open>percentage\<close> column).\<close>

datatype fval = Finite rat | NaN | PosInf | NegInf

record ('i, 'v) frame =
  index :: "'i list"
  columns :: "string list"
  cells :: "'v list list"

record 'k plot_row = "'k row" +
  language_name :: "string option"

record 'k pct_row = "'k plot_row" +
  percentage :: fval

datatype chart =
    Warning string
  | StackedBar "string option plot_row list"
  | GroupedBar "string option plot_row list"
  | PercentStacked "string option pct_row list"

text \<open>
  What one run computes and shows: \<open>df_wide\<close> is the frame of lines 146-148 (computed,
  shown by no widget), \<open>chart\<close> the notice or the chart of lines 154-223, then the three
  metrics of lines 230-240 and the summary table of lines 247-256.
\<close>

record page =
  df_wide :: "(string option, rat) frame"
  chart :: chart
  total_articles :: int
  num_languages :: nat
  num_subtopics :: nat
  summary_df :: "(string, rat) frame"

subsection \<open>Numbers\<close>

text \<open>The value an int64 holds after an addition: the exact result modulo \<open>2^64\<close>.\<close>

definition int64 :: "int \<Rightarrow> int" where
  "int64 x = (x + 2 ^ 63) mod 2 ^ 64 - 2 ^ 63"

text \<open>\<open>numpy.rint\<close>: to the nearest integer, a tie to the even one.\<close>

definition rint :: "rat \<Rightarrow> int" where
  "rint q =
     (let f = \<lfloor>q\<rfloor>; d = q - of_int f
      in if d < 1 / 2 then f else if 1 / 2 < d then f + 1
         else if even f then f else f + 1)"

text \<open>
  Rounding to float64: \<open>ilog2 x\<close> is the exponent \<open>e\<close> with \<open>2^e \<le> |x| < 2^(e+1)\<close>, and
  \<open>fl x\<close> the multiple of \<open>2^(e-52)\<close> nearest to \<open>x\<close>, a tie to the even one. The exponent
  range of float64 is not modelled: the int64 values, their quotients and the products by
  100 and 10 that the script computes stay far inside it.
\<close>

definition ilog2 :: "rat \<Rightarrow> int" where
  "ilog2 x =
     (let (n, d) = quotient_of \<bar>x\<bar>; e = bitlen n - bitlen d
      in if 2 powi e \<le> \<bar>x\<bar> then e else e - 1)"

definition fl :: "rat \<Rightarrow> rat" where
  "fl x = (if x = 0 then 0
           else let ulp = 2 powi (ilog2 x - 52) in of_int (rint (x / ulp)) * ulp)"

text \<open>An int64 converted to float64.\<close>

definition float_of_int :: "int \<Rightarrow> rat" where
  "float_of_int a = fl (of_int a)"

text \<open>
  A sum of float64 values, added from left to right. (numpy adds rows of eight and more
  values in another order; the results differ only where an addition rounds.)
\<close>

definition fsum :: "rat list \<Rightarrow> rat" where
  "fsum xs = foldl (\<lambda>acc x. fl (acc + x)) 0 xs"

text \<open>
  \<open>numpy.argsort(values)\<close> with the default \<open>kind='quicksort'\<close>: indices that put the
  values in increasing order. Nothing more is known of it: the sort is not stable, and the
  order of the indices of equal values depends on the numpy build. \<open>argsort_stable\<close>, which
  keeps equal values in their order, is one function of this kind.
\<close>

definition is_argsort :: "(int list \<Rightarrow> nat list) \<Rightarrow> bool" where
  "is_argsort argsort \<longleftrightarrow>
     (\<forall>vs. mset (argsort vs) = mset [0..<length vs] \<and>
           sorted (map (\<lambda>i. vs ! i) (argsort vs)))"

definition argsort_stable :: "int list \<Rightarrow> nat list" where
  "argsort_stable vs = map snd (sort_key fst (zip vs [0..<length vs]))"

subsection \<open>Library operations the script calls\<close>

text \<open>\<open>Series.unique()\<close>: the distinct values in order of first appearance.\<close>

fun unique :: "'a list \<Rightarrow> 'a list" where
  "unique [] = []"
| "unique (x # xs) = x # unique (removeAll x xs)"

text \<open>\<open>str.split(sep)\<close> for a one-character separator: never an empty list.\<close>

fun split :: "char \<Rightarrow> string \<Rightarrow> string list" where
  "split c [] = [[]]"
| "split c (x # xs) =
     (if x = c then [] # split c xs
      else (case split c xs of [] \<Rightarrow> [[x]] | w # ws \<Rightarrow> (x # w) # ws))"

text \<open>Position of a label in a list of categories (the list's length when absent).\<close>

fun position :: "'a list \<Rightarrow> 'a \<Rightarrow> nat" where
  "position [] x = 0"
| "position (y # ys) x = (if x = y then 0 else Suc (position ys x))"

text \<open>
  \<open>groupby('language_code')['article_count'].sum()\<close> on a column of strings: one entry
  per distinct language, the group keys sorted.
\<close>

definition group_total :: "string row list \<Rightarrow> string \<Rightarrow> int" where
  "group_total rows l =
     int64 (sum_list (map article_count (filter (\<lambda>r. language_code r = l) rows)))"

definition groupby_sum :: "string row list \<Rightarrow> (string \<times> int) list" where
  "groupby_sum rows =
     map (\<lambda>l. (l, group_total rows l)) (sort (remdups (map language_code rows)))"

text \<open>
  \<open>Series.sort_values(ascending=...)\<close>: pandas takes the entries at the indices that
  \<open>argsort\<close> returns for the values; for a descending sort it reverses the values before the
  argsort and the result after it.
\<close>

definition sort_values ::
  "(int list \<Rightarrow> nat list) \<Rightarrow> bool \<Rightarrow> (string \<times> int) list \<Rightarrow> (string \<times> int) list" where
  "sort_values argsort ascending s =
     (if ascending then map (\<lambda>i. s ! i) (argsort (map snd s))
      else rev (map (\<lambda>i. s ! (length s - 1 - i)) (argsort (rev (map snd s)))))"

text \<open>
  \<open>pd.Categorical(values, categories=cats, ordered=True)\<close>: a value that is not one of
  the categories becomes NaN.
\<close>

definition Categorical :: "string list \<Rightarrow> string row list \<Rightarrow> string option row list" where
  "Categorical cats rows =
     map (\<lambda>r. \<lparr>language_code =
                  (if language_code r \<in> set cats then Some (language_code r) else None),
                subtopic = subtopic r, article_count = article_count r\<rparr>) rows"

text \<open>
  \<open>df.sort_values('language_code')\<close> on the categorical column: by position among the
  categories, NaN last. Rows with the same label keep their order here; pandas keeps it in
  short frames only, and no statement below depends on the order of such rows.
\<close>

definition cat_rank :: "string list \<Rightarrow> string option \<Rightarrow> nat" where
  "cat_rank cats k = (case k of None \<Rightarrow> length cats | Some l \<Rightarrow> position cats l)"

definition sort_values_language :: "string list \<Rightarrow> string option row list \<Rightarrow> string option row list" where
  "sort_values_language cats rows = sort_key (\<lambda>r. cat_rank cats (language_code r)) rows"

text \<open>
  \<open>df.pivot(index='language_code', columns='subtopic', values='article_count')\<close>:
  raises ValueError ("Index contains duplicate entries, cannot reshape") when two rows
  have the same index and column labels. Otherwise one row per label that occurs (a NaN
  label first, then the categories that occur, in category order), one column per subtopic
  that occurs (sorted), NaN where no row gives a value. The frame keeps the int64 values
  when every cell has one; as soon as one cell is NaN it is a float64 frame, and every
  value is converted.
\<close>

definition pivot_cell ::
  "(int \<Rightarrow> rat) \<Rightarrow> string option row list \<Rightarrow> string option \<Rightarrow> string \<Rightarrow> rat option" where
  "pivot_cell conv rows k s =
     (case filter (\<lambda>r. language_code r = k \<and> subtopic r = s) rows of
        [] \<Rightarrow> None
      | r # _ \<Rightarrow> Some (conv (article_count r)))"

definition pivot_index :: "string list \<Rightarrow> string option row list \<Rightarrow> string option list" where
  "pivot_index cats rows =
     (if None \<in> set (map language_code rows) then [None] else []) @
     map Some (filter (\<lambda>l. Some l \<in> set (map language_code rows)) cats)"

definition mask_all :: "string option row list \<Rightarrow> string option list \<Rightarrow> string list \<Rightarrow> bool" where
  "mask_all rows idx cols =
     list_all (\<lambda>k. list_all
        (\<lambda>s. filter (\<lambda>r. language_code r = k \<and> subtopic r = s) rows \<noteq> []) cols) idx"

definition pivot :: "string list \<Rightarrow> string option row list \<Rightarrow> error + (string option, rat option) frame" where
  "pivot cats rows =
     (if \<not> distinct (map (\<lambda>r. (language_code r, subtopic r)) rows) then Inl ValueError
      else let cols = sort (remdups (map subtopic rows));
               idx = pivot_index cats rows;
               conv = (if mask_all rows idx cols then of_int else float_of_int)
           in Inr \<lparr>index = idx, columns = cols,
                   cells = map (\<lambda>k. map (pivot_cell conv rows k) cols) idx\<rparr>)"

text \<open>\<open>df.fillna(v)\<close>: every NaN cell becomes \<open>v\<close>.\<close>

definition fill :: "rat \<Rightarrow> rat option \<Rightarrow> rat" where
  "fill v c = (case c of None \<Rightarrow> v | Some x \<Rightarrow> x)"

definition fillna :: "rat \<Rightarrow> ('i, rat option) frame \<Rightarrow> ('i, rat) frame" where
  "fillna v f = \<lparr>index = index f, columns = columns f, cells = map (map (fill v)) (cells f)\<rparr>"

text \<open>
  \<open>df.pivot_table(index='language_code', columns='subtopic', values='article_count',
  fill_value=0)\<close>: no exception on duplicates; the default aggregation is the mean of the
  group, a float64. Rows with a NaN label are left out of the grouping, categories without a
  row are dropped, an empty cell is filled with \<open>fill_value\<close>. (pandas adds the values of a
  group with a compensation term; the mean of a group of several rows can differ from the
  one here in its last bits. In a run no group has several rows: the pivot of line 146 has
  raised before.)
\<close>

definition mean :: "int list \<Rightarrow> rat" where
  "mean vs = fl (fsum (map float_of_int vs) / of_nat (length vs))"

definition pivot_table_cell :: "string option row list \<Rightarrow> string \<Rightarrow> string \<Rightarrow> rat" where
  "pivot_table_cell rows l s =
     (case map article_count (filter (\<lambda>r. language_code r = Some l \<and> subtopic r = s) rows) of
        [] \<Rightarrow> 0
      | v # vs \<Rightarrow> mean (v # vs))"

definition pivot_table :: "string list \<Rightarrow> string option row list \<Rightarrow> (string, rat) frame" where
  "pivot_table cats rows =
     (let obs = filter (\<lambda>r. language_code r \<noteq> None) rows;
          idx = filter (\<lambda>l. Some l \<in> set (map language_code obs)) cats;
          cols = sort (remdups (map subtopic obs))
      in \<lparr>index = idx, columns = cols,
          cells = map (\<lambda>l. map (pivot_table_cell rows l) cols) idx\<rparr>)"

text \<open>\<open>f[name] = col\<close>: replaces the column of that name, or appends a new one.\<close>

definition assign_column :: "string \<Rightarrow> 'v list \<Rightarrow> ('i, 'v) frame \<Rightarrow> ('i, 'v) frame" where
  "assign_column name col f =
     (if name \<in> set (columns f)
      then f\<lparr>cells := map (\<lambda>(r, v). r[position (columns f) name := v]) (zip (cells f) col)\<rparr>
      else f\<lparr>columns := columns f @ [name],
             cells := map (\<lambda>(r, v). r @ [v]) (zip (cells f) col)\<rparr>)"

text \<open>Reading a cell by its labels (\<open>f.loc[i, c]\<close>); \<open>None\<close> when a label is absent.\<close>

definition loc :: "('i, 'v) frame \<Rightarrow> 'i \<Rightarrow> string \<Rightarrow> 'v option" where
  "loc f i c =
     (case map_of (zip (index f) (cells f)) i of
        None \<Rightarrow> None
      | Some r \<Rightarrow> map_of (zip (columns f) r) c)"

text \<open>Reading a column by its label (\<open>f[c]\<close>), one value per row of the frame.\<close>

definition column :: "('i, 'v) frame \<Rightarrow> string \<Rightarrow> 'v option list" where
  "column f c = map (\<lambda>r. map_of (zip (columns f) r) c) (cells f)"

text \<open>
  \<open>article_count / totals\<close> (line 201) on one row: both int64 values are converted to
  float64 and divided; a total that is NaN (a row without language) gives NaN, a total 0
  gives NaN or an infinity.
\<close>

definition fdiv :: "int \<Rightarrow> int option \<Rightarrow> fval" where
  "fdiv a t =
     (case t of
        None \<Rightarrow> NaN
      | Some b \<Rightarrow>
          (if b \<noteq> 0 then Finite (fl (float_of_int a / float_of_int b))
           else if a = 0 then NaN else if 0 < a then PosInf else NegInf))"

definition fmul :: "fval \<Rightarrow> rat \<Rightarrow> fval" where
  "fmul x c = (case x of Finite q \<Rightarrow> Finite (fl (q * c)) | y \<Rightarrow> y)"

text \<open>
  \<open>.round(1)\<close>: numpy multiplies by 10, rounds to the nearest integer and divides by 10,
  each in float64.
\<close>

definition round1 :: "fval \<Rightarrow> fval" where
  "round1 x =
     (case x of Finite q \<Rightarrow> Finite (fl (of_int (rint (fl (q * 10))) / 10)) | y \<Rightarrow> y)"

subsection \<open>The script\<close>

text \<open>Lines 30-41.\<close>

definition lang_map :: "string \<rightharpoonup> string" where
  "lang_map = map_of
     [(''en'', ''English''), (''ar'', ''Arabic''), (''fr'', ''French''),
      (''es'', ''Spanish''), (''de'', ''German''), (''pt'', ''Portuguese''),
      (''zh'', ''Chinese''), (''ru'', ''Russian''), (''uk'', ''Ukrainian''),
      (''it'', ''Italian'')]"

text \<open>\<open>lang_map.get(x, x)\<close>.\<close>

definition lang_map_get :: "string \<Rightarrow> string" where
  "lang_map_get x = (case lang_map x of None \<Rightarrow> x | Some n \<Rightarrow> n)"

text \<open>The label \<open>f"{lang_map.get(x, x)} ({x})"\<close> of lines 64 and 254.\<close>

definition language_label :: "string \<Rightarrow> string" where
  "language_label x = lang_map_get x @ '' ('' @ x @ '')''"

text \<open>Lines 63-64 and 81-82: the options of the two select boxes.\<close>

definition available_languages :: "string row list \<Rightarrow> string list" where
  "available_languages df = unique (map language_code df)"

definition language_options :: "string row list \<Rightarrow> string list" where
  "language_options df = ''All Languages'' # map language_label (available_languages df)"

definition available_subtopics :: "string row list \<Rightarrow> string list" where
  "available_subtopics df = unique (map subtopic df)"

definition subtopic_options :: "string row list \<Rightarrow> string list" where
  "subtopic_options df = ''All Subtopics'' # available_subtopics df"

text \<open>
  Lines 72-77: \<open>selected_language.split('(')[1].split(')')[0]\<close> raises IndexError when
  the selection has no opening parenthesis.
\<close>

definition selected_languages :: "string row list \<Rightarrow> string \<Rightarrow> error + string list" where
  "selected_languages df selected_language =
     (if selected_language = ''All Languages'' then Inr (available_languages df)
      else (case split CHR ''('' selected_language of
              _ # b # _ \<Rightarrow>
                (case split CHR '')'' b of [] \<Rightarrow> Inl IndexError | lang_code # _ \<Rightarrow> Inr [lang_code])
            | _ \<Rightarrow> Inl IndexError))"

text \<open>Lines 90-93.\<close>

definition selected_subtopics :: "string row list \<Rightarrow> string \<Rightarrow> string list" where
  "selected_subtopics df selected_subtopic =
     (if selected_subtopic = ''All Subtopics'' then available_subtopics df
      else [selected_subtopic])"

text \<open>Lines 114-117.\<close>

definition filter_rows :: "string row list \<Rightarrow> string list \<Rightarrow> string list \<Rightarrow> string row list" where
  "filter_rows df langs subs =
     filter (\<lambda>r. language_code r \<in> set langs \<and> subtopic r \<in> set subs) df"

text \<open>Lines 120-141: the categories of the language column, by sort option.\<close>

definition top10_langs :: "string list" where
  "top10_langs = [''en'', ''ar'', ''fr'', ''es'', ''de'', ''pt'', ''zh'', ''ru'', ''uk'', ''it'']"

definition categories ::
  "(int list \<Rightarrow> nat list) \<Rightarrow> string \<Rightarrow> string row list \<Rightarrow> string list \<Rightarrow> string list" where
  "categories argsort sort_option rows langs =
     (if sort_option = ''Total Articles (Descending)''
      then map fst (sort_values argsort False (groupby_sum rows))
      else if sort_option = ''Total Articles (Ascending)''
      then map fst (sort_values argsort True (groupby_sum rows))
      else filter (\<lambda>l. l \<in> set langs) top10_langs)"

text \<open>Lines 114-143: \<open>df_filtered\<close> as it is from line 143 on.\<close>

definition df_filtered ::
  "(int list \<Rightarrow> nat list) \<Rightarrow> string row list \<Rightarrow> string list \<Rightarrow> string list \<Rightarrow> string \<Rightarrow>
     string option row list" where
  "df_filtered argsort df langs subs sort_option =
     (let rows = filter_rows df langs subs;
          cats = categories argsort sort_option rows langs
      in sort_values_language cats (Categorical cats rows))"

text \<open>Line 161: \<open>df_plot['language_code'].map(lang_map)\<close>, a label without an entry maps to NaN.\<close>

definition df_plot :: "string option row list \<Rightarrow> string option plot_row list" where
  "df_plot rows =
     map (\<lambda>r. \<lparr>language_code = language_code r, subtopic = subtopic r,
                article_count = article_count r,
                language_name = (case language_code r of None \<Rightarrow> None | Some l \<Rightarrow> lang_map l)\<rparr>)
         rows"

text \<open>
  Line 200: \<open>groupby('language_code')['article_count'].transform('sum')\<close>, the int64
  total of the rows of the language, NaN (\<open>None\<close>) on the rows whose label is NaN.
\<close>

definition transform_sum :: "string option plot_row list \<Rightarrow> string option \<Rightarrow> int option" where
  "transform_sum rows k =
     (case k of
        None \<Rightarrow> None
      | Some l \<Rightarrow>
          Some (int64 (sum_list (map article_count (filter (\<lambda>r. language_code r = k) rows)))))"

text \<open>Lines 200-201.\<close>

definition with_percentage :: "string option plot_row list \<Rightarrow> string option pct_row list" where
  "with_percentage rows =
     map (\<lambda>r. \<lparr>language_code = language_code r, subtopic = subtopic r,
                article_count = article_count r, language_name = language_name r,
                percentage =
                  round1 (fmul (fdiv (article_count r) (transform_sum rows (language_code r))) 100)\<rparr>)
         rows"

text \<open>Lines 154-223.\<close>

definition make_chart :: "string list \<Rightarrow> string list \<Rightarrow> string \<Rightarrow> string option row list \<Rightarrow> chart" where
  "make_chart langs subs chart_type rows =
     (if length langs = 0 then Warning ''Please select at least one language to display.''
      else if length subs = 0 then Warning ''Please select at least one subtopic to display.''
      else if chart_type = ''Stacked Bar'' then StackedBar (df_plot rows)
      else if chart_type = ''Grouped Bar'' then GroupedBar (df_plot rows)
      else PercentStacked (with_percentage (df_plot rows)))"

text \<open>Lines 247-254.\<close>

definition make_summary :: "string list \<Rightarrow> string option row list \<Rightarrow> (string, rat) frame" where
  "make_summary cats rows =
     (let t = pivot_table cats rows;
          t' = assign_column ''Total'' (map fsum (cells t)) t
      in t'\<lparr>index := map language_label (index t')\<rparr>)"

text \<open>
  Lines 113-256 for given selected lists: the pivot of line 146 comes before everything
  that is rendered, so its exception leaves no page.
\<close>

definition run_page ::
  "(int list \<Rightarrow> nat list) \<Rightarrow> string row list \<Rightarrow> string list \<Rightarrow> string list \<Rightarrow> string \<Rightarrow> string \<Rightarrow>
     error + page" where
  "run_page argsort df langs subs chart_type sort_option =
     (let cats = categories argsort sort_option (filter_rows df langs subs) langs;
          rows = df_filtered argsort df langs subs sort_option
      in case pivot cats rows of
           Inl e \<Rightarrow> Inl e
         | Inr w \<Rightarrow>
             Inr \<lparr>df_wide = fillna 0 w,
                  chart = make_chart langs subs chart_type rows,
                  total_articles = int64 (sum_list (map article_count rows)),
                  num_languages = length langs,
                  num_subtopics = length subs,
                  summary_df = make_summary cats rows\<rparr>)"

text \<open>
  One run of the script, from the loaded table and the four widget values, with the
  \<open>argsort\<close> of the numpy at hand.
\<close>

definition render ::
  "(int list \<Rightarrow> nat list) \<Rightarrow> string row list \<Rightarrow> string \<Rightarrow> string \<Rightarrow> string \<Rightarrow> string \<Rightarrow>
     error + page" where
  "render argsort df selected_language selected_subtopic chart_type sort_option =
     (case selected_languages df selected_language of
        Inl e \<Rightarrow> Inl e
      | Inr langs \<Rightarrow>
          run_page argsort df langs (selected_subtopics df selected_subtopic) chart_type
            sort_option)"

section \<open>Auxiliary facts\<close>

subsection \<open>Duplicates, empty selections and mode strings\<close>

lemma distinct_map_comp: "distinct (map (\<lambda>x. g (f x)) xs) \<Longrightarrow> distinct (map f xs)"
  by (induction xs) auto

lemma pairs_Categorical:
  "map (\<lambda>r. (language_code r, subtopic r)) (Categorical cats rows) =
   map (\<lambda>r. ((if language_code r \<in> set cats then Some (language_code r) else None), subtopic r)) rows"
  by (simp add: Categorical_def)

lemma distinct_sort_values_language:
  "distinct (map h (sort_values_language cats rows)) = distinct (map h rows)"
proof -
  have "mset (map h (sort_values_language cats rows)) = mset (map h rows)"
    by (simp add: sort_values_language_def)
  then show ?thesis by (rule mset_eq_imp_distinct_iff)
qed

lemma run_page_duplicates:
  assumes "\<not> distinct (map (\<lambda>r. (language_code r, subtopic r)) (filter_rows df langs subs))"
  shows "run_page argsort df langs subs chart_type sort_option = Inl ValueError"
proof -
  let ?F = "filter_rows df langs subs"
  let ?cats = "categories argsort sort_option ?F langs"
  have "\<not> distinct (map (\<lambda>r. (language_code r, subtopic r)) (Categorical ?cats ?F))"
  proof
    assume "distinct (map (\<lambda>r. (language_code r, subtopic r)) (Categorical ?cats ?F))"
    then have "distinct (map (\<lambda>r. ((if language_code r \<in> set ?cats then Some (language_code r) else None), subtopic r)) ?F)"
      by (simp only: pairs_Categorical)
    then have "distinct (map (\<lambda>r. (\<lambda>(l, s). ((if l \<in> set ?cats then Some l else None), s)) (language_code r, subtopic r)) ?F)"
      by simp
    then have "distinct (map (\<lambda>r. (language_code r, subtopic r)) ?F)"
      by (rule distinct_map_comp)
    with assms show False by simp
  qed
  then have "\<not> distinct (map (\<lambda>r. (language_code r, subtopic r)) (df_filtered argsort df langs subs sort_option))"
    by (simp add: df_filtered_def Let_def distinct_sort_values_language)
  then show ?thesis
    by (simp add: run_page_def Let_def pivot_def)
qed

lemma filter_rows_empty: "langs = [] \<or> subs = [] \<Longrightarrow> filter_rows df langs subs = []"
  by (auto simp: filter_rows_def)

lemma categories_default:
  "so \<noteq> ''Total Articles (Descending)'' \<Longrightarrow> so \<noteq> ''Total Articles (Ascending)'' \<Longrightarrow>
   categories argsort so rows langs = categories argsort ''Default Order'' rows langs"
  by (simp add: categories_def)

lemma df_filtered_default:
  assumes "so \<noteq> ''Total Articles (Descending)''" "so \<noteq> ''Total Articles (Ascending)''"
  shows "df_filtered argsort df langs subs so = df_filtered argsort df langs subs ''Default Order''"
proof -
  have "categories argsort so (filter_rows df langs subs) langs =
        categories argsort ''Default Order'' (filter_rows df langs subs) langs"
    using assms by (rule categories_default)
  then show ?thesis
    by (simp only: df_filtered_def Let_def)
qed

lemma run_page_default:
  assumes "so \<noteq> ''Total Articles (Descending)''" "so \<noteq> ''Total Articles (Ascending)''"
  shows "run_page argsort df langs subs ct so = run_page argsort df langs subs ct ''Default Order''"
proof -
  have "categories argsort so (filter_rows df langs subs) langs =
        categories argsort ''Default Order'' (filter_rows df langs subs) langs"
    using assms by (rule categories_default)
  moreover have "df_filtered argsort df langs subs so = df_filtered argsort df langs subs ''Default Order''"
    using assms by (rule df_filtered_default)
  ultimately show ?thesis
    by (simp only: run_page_def Let_def)
qed

lemma make_chart_percent:
  "ct \<noteq> ''Stacked Bar'' \<Longrightarrow> ct \<noteq> ''Grouped Bar'' \<Longrightarrow>
   make_chart langs subs ct rows = make_chart langs subs ''Percentage Stacked'' rows"
  by (simp add: make_chart_def)

lemma run_page_percent:
  assumes "ct \<noteq> ''Stacked Bar''" "ct \<noteq> ''Grouped Bar''"
  shows "run_page argsort df langs subs ct so = run_page argsort df langs subs ''Percentage Stacked'' so"
proof -
  have "make_chart langs subs ct rows = make_chart langs subs ''Percentage Stacked'' rows" for rows
    using assms by (rule make_chart_percent)
  then show ?thesis
    by (simp only: run_page_def Let_def)
qed

subsection \<open>The select boxes\<close>

lemma split_nonempty: "split c s \<noteq> []"
  by (induction s) (auto split: list.splits)

lemma length_split: "length (split c s) = Suc (count_list s c)"
proof (induction s)
  case Nil
  show ?case by simp
next
  case (Cons x xs)
  then show ?case
    by (cases "split c xs") (auto simp: split_nonempty)
qed

lemma split_two: "c \<in> set s \<Longrightarrow> \<exists>a b rest. split c s = a # b # rest"
proof -
  assume "c \<in> set s"
  then have "count_list s c \<noteq> 0" by (simp add: count_list_0_iff)
  then have "2 \<le> length (split c s)" by (simp add: length_split)
  then show ?thesis
    by (cases "split c s"; cases "tl (split c s)") auto
qed

lemma selected_languages_label:
  "\<exists>c. selected_languages df (language_label x) = Inr [c]"
proof -
  have ne: "language_label x \<noteq> ''All Languages''"
  proof
    assume "language_label x = ''All Languages''"
    then have "last (language_label x) = last ''All Languages''" by simp
    then show False by (simp add: language_label_def)
  qed
  have "CHR ''('' \<in> set (language_label x)"
    by (simp add: language_label_def)
  then obtain a b rest where s: "split CHR ''('' (language_label x) = a # b # rest"
    using split_two by blast
  obtain c cs where t: "split CHR '')'' b = c # cs"
    using split_nonempty [of "CHR '')''" b] by (cases "split CHR '')'' b") auto
  have "selected_languages df (language_label x) = Inr [c]"
    using ne by (simp add: selected_languages_def s t del: split.simps)
  then show ?thesis ..
qed

lemma set_unique [simp]: "set (unique xs) = set xs"
  by (induction xs rule: unique.induct) auto

lemma unique_Nil_iff [simp]: "unique xs = [] \<longleftrightarrow> xs = []"
  by (cases xs) auto

lemma make_chart_Warning:
  "langs \<noteq> [] \<Longrightarrow> subs \<noteq> [] \<Longrightarrow> make_chart langs subs ct rows \<noteq> Warning m"
  by (simp add: make_chart_def)

lemma render_chart:
  assumes "render argsort df sl ss ct so = Inr p"
  shows "\<exists>langs. selected_languages df sl = Inr langs \<and>
     chart p = make_chart langs (selected_subtopics df ss) ct
        (df_filtered argsort df langs (selected_subtopics df ss) so)"
proof (cases "selected_languages df sl")
  case (Inl e)
  with assms show ?thesis by (simp add: render_def)
next
  case (Inr langs)
  with assms have r: "run_page argsort df langs (selected_subtopics df ss) ct so = Inr p"
    by (simp add: render_def)
  then have "chart p = make_chart langs (selected_subtopics df ss) ct
        (df_filtered argsort df langs (selected_subtopics df ss) so)"
    by (auto simp: run_page_def Let_def split: sum.splits)
  with Inr show ?thesis by simp
qed

subsection \<open>Order of the rows by category\<close>

lemma position_less: "x \<in> set ys \<Longrightarrow> position ys x < length ys"
  by (induction ys) auto

lemma position_eq: "a \<in> set ys \<Longrightarrow> position ys a = position ys b \<Longrightarrow> a = b"
  by (induction ys) (auto split: if_splits)

lemma cat_rank_inj:
  assumes "cat_rank cats a = cat_rank cats b"
    and "\<And>l. a = Some l \<Longrightarrow> l \<in> set cats"
    and "\<And>l. b = Some l \<Longrightarrow> l \<in> set cats"
  shows "a = b"
proof (cases a)
  case None
  show ?thesis
  proof (cases b)
    case None
    with \<open>a = None\<close> show ?thesis by simp
  next
    case (Some l)
    then have "position cats l < length cats" using assms(3) by (simp add: position_less)
    with assms(1) None Some show ?thesis by (simp add: cat_rank_def)
  qed
next
  case (Some l)
  then have l: "l \<in> set cats" using assms(2) by simp
  show ?thesis
  proof (cases b)
    case None
    from l have "position cats l < length cats" by (rule position_less)
    with assms(1) None Some show ?thesis by (simp add: cat_rank_def)
  next
    case (Some m)
    with assms(1) \<open>a = Some l\<close> have "position cats l = position cats m"
      by (simp add: cat_rank_def)
    with l have "l = m" by (rule position_eq)
    with Some \<open>a = Some l\<close> show ?thesis by simp
  qed
qed

lemma position_distinct: "distinct ys \<Longrightarrow> map (position ys) ys = [0..<length ys]"
proof (induction ys)
  case Nil
  show ?case by simp
next
  case (Cons y ys)
  have "map (position (y # ys)) ys = map (\<lambda>x. Suc (position ys x)) ys"
    using Cons.prems by (intro map_cong) auto
  also have "\<dots> = map Suc (map (position ys) ys)" by simp
  also have "\<dots> = map Suc [0..<length ys]" using Cons by simp
  also have "\<dots> = [Suc 0..<Suc (length ys)]" by (rule map_Suc_upt)
  finally have t: "map (position (y # ys)) ys = [Suc 0..<Suc (length ys)]" .
  have p: "position (y # ys) y = 0" by simp
  have "map (position (y # ys)) (y # ys) = 0 # map (position (y # ys)) ys"
    by (simp only: list.map p)
  also have "\<dots> = 0 # [Suc 0..<Suc (length ys)]" by (simp only: t)
  also have "\<dots> = [0..<Suc (length ys)]" by (rule upt_conv_Cons [symmetric]) simp
  finally show ?case by (simp only: length_Cons)
qed

lemma cat_rank_all_sorted:
  assumes "distinct cats"
  shows "sorted_wrt (\<lambda>a b. cat_rank cats a < cat_rank cats b) (map Some cats @ [None])"
proof -
  have "map (cat_rank cats) (map Some cats @ [None]) = map (position cats) cats @ [length cats]"
    by (simp add: cat_rank_def)
  also have "\<dots> = [0..<Suc (length cats)]"
    using assms by (simp add: position_distinct)
  finally have "sorted_wrt (<) (map (cat_rank cats) (map Some cats @ [None]))"
    by (simp only: sorted_wrt_upt)
  then show ?thesis by (simp only: sorted_wrt_map)
qed

lemma unique_sorted:
  fixes rk :: "'a \<Rightarrow> nat"
  assumes "sorted (map rk xs)" and "inj_on rk (set xs)"
  shows "sorted_wrt (\<lambda>a b. rk a < rk b) (unique xs)"
  using assms
proof (induction xs rule: unique.induct)
  case 1
  show ?case by simp
next
  case (2 x xs)
  have s: "sorted_wrt (\<lambda>a b. rk a \<le> rk b) (x # xs)"
    using "2.prems"(1) by (simp only: sorted_wrt_map [symmetric])
  then have "sorted_wrt (\<lambda>a b. rk a \<le> rk b) (removeAll x xs)"
    by (simp add: removeAll_filter_not_eq sorted_wrt_filter)
  then have "sorted (map rk (removeAll x xs))"
    by (simp only: sorted_wrt_map)
  moreover have "inj_on rk (set (removeAll x xs))"
    using "2.prems"(2) by (auto simp: inj_on_def)
  ultimately have ih: "sorted_wrt (\<lambda>a b. rk a < rk b) (unique (removeAll x xs))"
    by (rule "2.IH")
  have "rk x < rk y" if "y \<in> set (unique (removeAll x xs))" for y
  proof -
    from that have y: "y \<in> set xs" "y \<noteq> x" by auto
    with s have "rk x \<le> rk y" by auto
    moreover have "rk x \<noteq> rk y"
      using y "2.prems"(2) by (auto simp: inj_on_def)
    ultimately show ?thesis by simp
  qed
  with ih show ?case by simp
qed

lemma strictly_ranked_unique:
  fixes rk :: "'a \<Rightarrow> nat"
  assumes "sorted_wrt (\<lambda>a b. rk a < rk b) ys" "sorted_wrt (\<lambda>a b. rk a < rk b) zs"
    and "set ys = set zs"
  shows "ys = zs"
proof -
  have "sorted_wrt (<) (map rk ys)" using assms(1) by (simp only: sorted_wrt_map)
  then have y: "sorted (map rk ys)" "distinct (map rk ys)"
    by (simp_all only: strict_sorted_iff)
  have "sorted_wrt (<) (map rk zs)" using assms(2) by (simp only: sorted_wrt_map)
  then have z: "sorted (map rk zs)" "distinct (map rk zs)"
    by (simp_all only: strict_sorted_iff)
  have "set (map rk ys) = set (map rk zs)" using assms(3) by simp
  with y z have m: "map rk ys = map rk zs" by (intro sorted_distinct_set_unique)
  have "inj_on rk (set ys)" using y(2) by (simp add: distinct_map)
  then have "inj_on rk (set ys \<union> set zs)" using assms(3) by simp
  with m show ?thesis by (simp add: inj_on_map_eq_map)
qed

lemma unique_sort_key_cat_rank:
  assumes "distinct cats" and "\<And>l. Some l \<in> set ks \<Longrightarrow> l \<in> set cats"
  shows "unique (sort_key (cat_rank cats) ks) =
     filter (\<lambda>k. k \<in> set ks) (map Some cats @ [None])"
proof (rule strictly_ranked_unique [where rk = "cat_rank cats"])
  have "inj_on (cat_rank cats) (set (sort_key (cat_rank cats) ks))"
    unfolding inj_on_def using assms(2) by (auto intro: cat_rank_inj)
  moreover have "sorted (map (cat_rank cats) (sort_key (cat_rank cats) ks))"
    by (rule sorted_sort_key)
  ultimately show "sorted_wrt (\<lambda>a b. cat_rank cats a < cat_rank cats b)
      (unique (sort_key (cat_rank cats) ks))"
    by (intro unique_sorted)
next
  show "sorted_wrt (\<lambda>a b. cat_rank cats a < cat_rank cats b)
      (filter (\<lambda>k. k \<in> set ks) (map Some cats @ [None]))"
    using assms(1) by (intro sorted_wrt_filter cat_rank_all_sorted)
next
  have "k \<in> set (map Some cats @ [None])" if "k \<in> set ks" for k
  proof (cases k)
    case None
    then show ?thesis by simp
  next
    case (Some l)
    with that have "l \<in> set cats" using assms(2) by simp
    with Some show ?thesis by simp
  qed
  then show "set (unique (sort_key (cat_rank cats) ks)) =
      set (filter (\<lambda>k. k \<in> set ks) (map Some cats @ [None]))"
    by auto
qed

lemma map_insort_key:
  "map h (insort_key (\<lambda>x. g (h x)) a xs) = insort_key g (h a) (map h xs)"
  by (induction xs) auto

lemma map_sort_key:
  "map h (sort_key (\<lambda>x. g (h x)) xs) = sort_key g (map h xs)"
  by (induction xs) (auto simp: map_insort_key)

lemma keys_df_filtered:
  "map language_code (df_filtered argsort df langs subs so) =
   sort_key (cat_rank (categories argsort so (filter_rows df langs subs) langs))
     (map (\<lambda>r. if language_code r \<in> set (categories argsort so (filter_rows df langs subs) langs)
                then Some (language_code r) else None)
        (filter_rows df langs subs))"
proof -
  have "map language_code (Categorical cats rows) =
      map (\<lambda>r. if language_code r \<in> set cats then Some (language_code r) else None) rows"
    for cats rows
    by (simp add: Categorical_def)
  then show ?thesis
    by (simp add: df_filtered_def Let_def sort_values_language_def map_sort_key)
qed

lemma unique_keys_df_filtered:
  assumes "distinct (categories argsort so (filter_rows df langs subs) langs)"
  shows "unique (map language_code (df_filtered argsort df langs subs so)) =
     map Some (filter (\<lambda>l. l \<in> language_code ` set (filter_rows df langs subs))
        (categories argsort so (filter_rows df langs subs) langs)) @
     (if \<exists>r\<in>set (filter_rows df langs subs).
          language_code r \<notin> set (categories argsort so (filter_rows df langs subs) langs)
      then [None] else [])"
proof -
  let ?F = "filter_rows df langs subs"
  let ?cats = "categories argsort so ?F langs"
  let ?ks = "map (\<lambda>r. if language_code r \<in> set ?cats then Some (language_code r) else None) ?F"
  have m: "Some l \<in> set ?ks \<longleftrightarrow> l \<in> set ?cats \<and> l \<in> language_code ` set ?F" for l
    by (auto split: if_splits)
  have n: "None \<in> set ?ks \<longleftrightarrow> (\<exists>r\<in>set ?F. language_code r \<notin> set ?cats)"
    by (auto split: if_splits)
  have "unique (sort_key (cat_rank ?cats) ?ks) =
      filter (\<lambda>k. k \<in> set ?ks) (map Some ?cats @ [None])"
    using assms
  proof (rule unique_sort_key_cat_rank)
    fix l
    assume "Some l \<in> set ?ks"
    then show "l \<in> set ?cats" by (simp only: m)
  qed
  also have "\<dots> = map Some (filter (\<lambda>l. Some l \<in> set ?ks) ?cats) @
      (if None \<in> set ?ks then [None] else [])"
    by (simp add: filter_map comp_def)
  also have "filter (\<lambda>l. Some l \<in> set ?ks) ?cats =
      filter (\<lambda>l. l \<in> language_code ` set ?F) ?cats"
    by (rule filter_cong) (simp_all only: m, simp)
  finally show ?thesis
    by (simp only: keys_df_filtered n)
qed

lemma filter_rows_language: "r \<in> set (filter_rows df langs subs) \<Longrightarrow> language_code r \<in> set langs"
  by (simp add: filter_rows_def)

lemma distinct_top10: "distinct top10_langs"
  by (simp add: top10_langs_def)

subsection \<open>Rounding\<close>

lemma rint_close: "\<bar>of_int (rint q) - q\<bar> \<le> 1 / 2"
proof -
  define f where "f = \<lfloor>q\<rfloor>"
  have a: "of_int f \<le> q" "q < of_int f + 1"
    unfolding f_def by linarith+
  have "rint q = (if q - of_int f < 1 / 2 then f else if 1 / 2 < q - of_int f then f + 1
      else if even f then f else f + 1)"
    by (simp add: rint_def Let_def f_def)
  then show ?thesis
    using a by (auto simp: abs_if)
qed

lemma rint_of_int [simp]: "rint (of_int k) = k"
  by (simp add: rint_def)

lemma ilog2_lower:
  assumes "x \<noteq> 0"
  shows "2 powi (ilog2 x) \<le> \<bar>x\<bar>"
proof -
  obtain n d where q: "quotient_of \<bar>x\<bar> = (n, d)" by (cases "quotient_of \<bar>x\<bar>")
  have d: "0 < d" using q by (rule quotient_of_denom_pos)
  have x: "\<bar>x\<bar> = of_int n / of_int d" using q by (rule quotient_of_div)
  have "0 < \<bar>x\<bar>" using assms by simp
  with x d have n: "0 < n" by (simp add: zero_less_divide_iff)
  let ?e = "bitlen n - bitlen d"
  show ?thesis
  proof (cases "(2::rat) powi ?e \<le> \<bar>x\<bar>")
    case True
    then show ?thesis by (simp add: ilog2_def q)
  next
    case False
    then have e: "ilog2 x = ?e - 1" by (simp add: ilog2_def q)
    have bn: "1 \<le> bitlen n" and bd: "1 \<le> bitlen d"
      using n d bitlen_nonneg [of n] bitlen_nonneg [of d] bitlen_eq_zero_iff [of n]
        bitlen_eq_zero_iff [of d] by linarith+
    have "(2::int) ^ nat (bitlen n - 1) \<le> n" using bitlen_bounds [OF n] by simp
    then have "(of_int ((2::int) ^ nat (bitlen n - 1)) :: rat) \<le> of_int n"
      by (simp only: of_int_le_iff)
    then have ln: "(2::rat) powi (bitlen n - 1) \<le> of_int n"
      using bn by (simp add: power_int_def)
    have "d < (2::int) ^ nat (bitlen d)" using bitlen_bounds [OF d] by simp
    then have "(of_int d :: rat) < of_int ((2::int) ^ nat (bitlen d))"
      by (simp only: of_int_less_iff)
    then have ud: "(of_int d :: rat) \<le> 2 powi (bitlen d)"
      using bd by (simp add: power_int_def)
    have p: "(2::rat) powi (?e - 1) * 2 powi (bitlen d) = 2 powi (bitlen n - 1)"
    proof -
      have "(2::rat) powi ((?e - 1) + bitlen d) = 2 powi (?e - 1) * 2 powi (bitlen d)"
        by (rule power_int_add) simp
      moreover have "(?e - 1) + bitlen d = bitlen n - 1" by simp
      ultimately show ?thesis by simp
    qed
    have "(2::rat) powi (?e - 1) * of_int d \<le> 2 powi (?e - 1) * 2 powi (bitlen d)"
      using ud by (intro mult_left_mono) simp_all
    also have "\<dots> = 2 powi (bitlen n - 1)" by (rule p)
    also have "\<dots> \<le> of_int n" by (rule ln)
    finally have "(2::rat) powi (?e - 1) \<le> of_int n / of_int d"
      using d by (simp add: pos_le_divide_eq)
    then show ?thesis by (simp only: e x)
  qed
qed

lemma ilog2_upper:
  assumes "x \<noteq> 0"
  shows "\<bar>x\<bar> < 2 powi (ilog2 x + 1)"
proof -
  obtain n d where q: "quotient_of \<bar>x\<bar> = (n, d)" by (cases "quotient_of \<bar>x\<bar>")
  have d: "0 < d" using q by (rule quotient_of_denom_pos)
  have x: "\<bar>x\<bar> = of_int n / of_int d" using q by (rule quotient_of_div)
  have "0 < \<bar>x\<bar>" using assms by simp
  with x d have n: "0 < n" by (simp add: zero_less_divide_iff)
  let ?e = "bitlen n - bitlen d"
  show ?thesis
  proof (cases "(2::rat) powi ?e \<le> \<bar>x\<bar>")
    case False
    then have e: "ilog2 x = ?e - 1" by (simp add: ilog2_def q)
    from False show ?thesis by (simp add: e)
  next
    case True
    then have e: "ilog2 x = ?e" by (simp add: ilog2_def q)
    have bn: "1 \<le> bitlen n" and bd: "1 \<le> bitlen d"
      using n d bitlen_nonneg [of n] bitlen_nonneg [of d] bitlen_eq_zero_iff [of n]
        bitlen_eq_zero_iff [of d] by linarith+
    have "n < (2::int) ^ nat (bitlen n)" using bitlen_bounds [OF n] by simp
    then have "(of_int n :: rat) < of_int ((2::int) ^ nat (bitlen n))"
      by (simp only: of_int_less_iff)
    then have un: "(of_int n :: rat) < 2 powi (bitlen n)"
      using bn by (simp add: power_int_def)
    have "(2::int) ^ nat (bitlen d - 1) \<le> d" using bitlen_bounds [OF d] by simp
    then have "(of_int ((2::int) ^ nat (bitlen d - 1)) :: rat) \<le> of_int d"
      by (simp only: of_int_le_iff)
    then have ld: "(2::rat) powi (bitlen d - 1) \<le> of_int d"
      using bd by (simp add: power_int_def)
    have p: "(2::rat) powi (bitlen n) = 2 powi (?e + 1) * 2 powi (bitlen d - 1)"
    proof -
      have "(2::rat) powi ((?e + 1) + (bitlen d - 1)) = 2 powi (?e + 1) * 2 powi (bitlen d - 1)"
        by (rule power_int_add) simp
      moreover have "(?e + 1) + (bitlen d - 1) = bitlen n" by simp
      ultimately show ?thesis by simp
    qed
    have "of_int n < (2::rat) powi (bitlen n)" by (rule un)
    also have "\<dots> = 2 powi (?e + 1) * 2 powi (bitlen d - 1)" by (rule p)
    also have "\<dots> \<le> 2 powi (?e + 1) * of_int d"
      using ld by (intro mult_left_mono) simp_all
    finally have "of_int n / of_int d < (2::rat) powi (?e + 1)"
      using d by (simp add: pos_divide_less_eq)
    then show ?thesis by (simp only: e x)
  qed
qed

lemma fl_error: "\<bar>fl x - x\<bar> \<le> \<bar>x\<bar> / 2 ^ 53"
proof (cases "x = 0")
  case True
  then show ?thesis by (simp add: fl_def)
next
  case False
  define ulp :: rat where "ulp = 2 powi (ilog2 x - 52)"
  have u: "0 < ulp" by (simp add: ulp_def)
  have f: "fl x = of_int (rint (x / ulp)) * ulp"
    using False by (simp add: fl_def Let_def ulp_def)
  have "fl x - x = (of_int (rint (x / ulp)) - x / ulp) * ulp"
    using u by (simp add: f field_simps)
  then have "\<bar>fl x - x\<bar> = \<bar>of_int (rint (x / ulp)) - x / ulp\<bar> * \<bar>ulp\<bar>"
    by (simp only: abs_mult)
  also have "\<bar>ulp\<bar> = ulp" using u by simp
  finally have "\<bar>fl x - x\<bar> = \<bar>of_int (rint (x / ulp)) - x / ulp\<bar> * ulp" .
  also have "\<dots> \<le> 1 / 2 * ulp"
    using u rint_close [of "x / ulp"] by (intro mult_right_mono) simp_all
  also have "\<dots> = 2 powi (ilog2 x) / 2 ^ 53"
    by (simp add: ulp_def power_int_diff)
  also have "\<dots> \<le> \<bar>x\<bar> / 2 ^ 53"
    using ilog2_lower [OF False] by (intro divide_right_mono) simp_all
  finally show ?thesis .
qed

lemma fl_of_int:
  assumes "0 \<le> n" "n \<le> 2 ^ 53"
  shows "fl (of_int n) = of_int n"
proof (cases "n = 0")
  case True
  then show ?thesis by (simp add: fl_def)
next
  case False
  let ?x = "of_int n :: rat"
  have x0: "?x \<noteq> 0" using False by simp
  define e where "e = ilog2 ?x"
  define ulp :: rat where "ulp = 2 powi (e - 52)"
  have u: "0 < ulp" by (simp add: ulp_def)
  have f: "fl ?x = of_int (rint (?x / ulp)) * ulp"
    using x0 by (simp add: fl_def Let_def ulp_def e_def)
  have lo: "(2::rat) powi e \<le> ?x"
    using ilog2_lower [OF x0] assms(1) by (simp add: e_def)
  have "?x \<le> 2 ^ 53" using assms(2) by (metis of_int_le_iff of_int_numeral of_int_power)
  with lo have le: "(2::rat) powi e \<le> 2 powi 53" by simp
  have e53: "e \<le> 53"
    by (rule power_int_le_imp_le_exp [OF _ le]) simp_all
  have "\<exists>k. ?x / ulp = of_int k"
  proof (cases "e \<le> 52")
    case True
    then have "ulp = 1 / 2 ^ nat (52 - e)"
      by (cases "e = 52") (simp_all add: ulp_def power_int_def inverse_eq_divide power_one_over)
    then have "?x / ulp = of_int (n * 2 ^ nat (52 - e))" by simp
    then show ?thesis ..
  next
    case False
    with e53 have e: "e = 53" by simp
    with lo \<open>?x \<le> 2 ^ 53\<close> have "?x = 2 ^ 53" by simp
    moreover have "ulp = 2" by (simp add: ulp_def e)
    ultimately have "?x / ulp = of_int (2 ^ 52)" by simp
    then show ?thesis ..
  qed
  then obtain k where k: "?x / ulp = of_int k" ..
  have "fl ?x = of_int k * ulp" by (simp only: f k rint_of_int)
  also have "\<dots> = ?x" using k u by (simp add: field_simps)
  finally show ?thesis .
qed

lemma float_of_int_exact: "0 \<le> n \<Longrightarrow> n \<le> 2 ^ 53 \<Longrightarrow> float_of_int n = of_int n"
  by (simp add: float_of_int_def fl_of_int)

lemma int64_id: "0 \<le> x \<Longrightarrow> x \<le> 2 ^ 53 \<Longrightarrow> int64 x = x"
  by (simp add: int64_def)

lemma round_chain_close:
  assumes "0 \<le> x" "x \<le> 1"
  shows "\<bar>fl (of_int (rint (fl (fl (fl x * 100) * 10))) / 10) - x * 100\<bar> \<le> 1 / 20 + 1 / 10 ^ 12"
proof -
  define u :: rat where "u = 1 / 2 ^ 53"
  define d where "d = fl x"
  define p where "p = fl (d * 100)"
  define y where "y = fl (p * 10)"
  define k where "k = rint y"
  define r where "r = fl (of_int k / 10)"
  have u: "0 < u" "u \<le> 1 / 10 ^ 15" by (simp_all add: u_def)
  have e1: "\<bar>d - x\<bar> \<le> \<bar>x\<bar> * u"
    using fl_error [of x] by (simp add: d_def u_def)
  have e2: "\<bar>p - d * 100\<bar> \<le> \<bar>d * 100\<bar> * u"
    using fl_error [of "d * 100"] by (simp add: p_def u_def)
  have e3: "\<bar>y - p * 10\<bar> \<le> \<bar>p * 10\<bar> * u"
    using fl_error [of "p * 10"] by (simp add: y_def u_def)
  have e4: "\<bar>of_int k - y\<bar> \<le> 1 / 2"
    unfolding k_def by (rule rint_close)
  have e5: "\<bar>r - of_int k / 10\<bar> \<le> \<bar>of_int k / 10\<bar> * u"
    using fl_error [of "of_int k / 10"] by (simp add: r_def u_def)
  have x: "\<bar>x\<bar> \<le> 1" using assms by simp
  have "\<bar>x\<bar> * u \<le> 1 * u" using x u(1) by (intro mult_right_mono) simp_all
  with e1 have b1: "\<bar>d - x\<bar> \<le> u" by simp
  with x u have d: "\<bar>d\<bar> \<le> 2" by (simp add: abs_if split: if_splits)
  have "\<bar>d * 100\<bar> * u \<le> 200 * u"
    using d u(1) by (intro mult_right_mono) (simp_all add: abs_mult)
  with e2 have b2: "\<bar>p - d * 100\<bar> \<le> 200 * u" by simp
  have "\<bar>d * 100\<bar> \<le> 200" using d by (simp add: abs_mult)
  with b2 u have p: "\<bar>p\<bar> \<le> 400" by (simp add: abs_if split: if_splits)
  have "\<bar>p * 10\<bar> * u \<le> 4000 * u"
    using p u(1) by (intro mult_right_mono) (simp_all add: abs_mult)
  with e3 have b3: "\<bar>y - p * 10\<bar> \<le> 4000 * u" by simp
  have "\<bar>p * 10\<bar> \<le> 4000" using p by (simp add: abs_mult)
  with b3 u have y: "\<bar>y\<bar> \<le> 8000" by (simp add: abs_if split: if_splits)
  with e4 have k: "\<bar>of_int k :: rat\<bar> \<le> 8010" by (simp add: abs_if split: if_splits)
  have "\<bar>of_int k / 10 :: rat\<bar> * u \<le> 801 * u"
    using k u(1) by (intro mult_right_mono) simp_all
  with e5 have b5: "\<bar>r - of_int k / 10\<bar> \<le> 801 * u" by simp
  have "\<bar>r - x * 100\<bar> \<le> 1 / 20 + 1501 * u"
    using b1 b2 b3 e4 b5 by (simp add: abs_if split: if_splits)
  also have "\<dots> \<le> 1 / 20 + 1 / 10 ^ 12" by (simp add: u_def)
  finally show ?thesis by (simp only: r_def k_def y_def p_def d_def)
qed

subsection \<open>Percentages\<close>

lemma make_chart_PercentStacked:
  "make_chart langs subs ct rows = PercentStacked prs \<Longrightarrow> prs = with_percentage (df_plot rows)"
  by (simp add: make_chart_def split: if_splits)

lemma render_PercentStacked:
  assumes "render argsort df sl ss ct so = Inr p" "chart p = PercentStacked prs"
  shows "\<exists>ps. prs = with_percentage ps"
  using render_chart [OF assms(1)] assms(2) make_chart_PercentStacked by metis

lemma percentage_with_percentage:
  "map percentage (filter (\<lambda>x. language_code x = k) (with_percentage ps)) =
   map (\<lambda>r. round1 (fmul (fdiv (article_count r) (transform_sum ps k)) 100))
     (filter (\<lambda>x. language_code x = k) ps)"
  by (simp add: with_percentage_def filter_map comp_def)

lemma counts_with_percentage:
  "map article_count (filter (\<lambda>x. language_code x = k) (with_percentage ps)) =
   map article_count (filter (\<lambda>x. language_code x = k) ps)"
  by (simp add: with_percentage_def filter_map comp_def)

lemma percentage_row:
  assumes "r \<in> set (with_percentage ps)"
  shows "percentage r =
    round1 (fmul (fdiv (article_count r) (transform_sum ps (language_code r))) 100)"
  using assms by (auto simp: with_percentage_def)

lemma abs_sum_list_diff:
  fixes f g :: "'a \<Rightarrow> rat"
  assumes "\<And>x. x \<in> set xs \<Longrightarrow> \<bar>f x - g x\<bar> \<le> c"
  shows "\<bar>sum_list (map f xs) - sum_list (map g xs)\<bar> \<le> of_nat (length xs) * c"
  using assms
proof (induction xs)
  case Nil
  show ?case by simp
next
  case (Cons x xs)
  have "\<bar>f x - g x\<bar> \<le> c" using Cons.prems by simp
  moreover have "\<bar>sum_list (map f xs) - sum_list (map g xs)\<bar> \<le> of_nat (length xs) * c"
    using Cons by simp
  ultimately show ?case by (simp add: algebra_simps abs_if split: if_splits)
qed

lemma sum_list_shares:
  fixes t :: rat
  shows "sum_list (map (\<lambda>r. of_int (h r) / t * 100) rs) = of_int (sum_list (map h rs)) / t * 100"
  by (induction rs) (simp_all add: add_divide_distrib distrib_right)

lemma nonneg_le_sum_list:
  fixes f :: "'a \<Rightarrow> int"
  assumes "\<And>y. y \<in> set xs \<Longrightarrow> 0 \<le> f y" "x \<in> set xs"
  shows "f x \<le> sum_list (map f xs)"
  using assms
proof (induction xs)
  case Nil
  then show ?case by simp
next
  case (Cons a xs)
  have s: "0 \<le> sum_list (map f xs)"
    using Cons.prems(1) by (intro sum_list_nonneg) auto
  show ?case
  proof (cases "x = a")
    case True
    with s show ?thesis by simp
  next
    case False
    with Cons.prems have "x \<in> set xs" by simp
    then have "f x \<le> sum_list (map f xs)" using Cons by simp
    moreover have "0 \<le> f a" using Cons.prems(1) by simp
    ultimately show ?thesis by simp
  qed
qed

subsection \<open>Order of the categories by total\<close>

lemma groupby_sum_keys: "map fst (groupby_sum rows) = sort (remdups (map language_code rows))"
  by (simp add: groupby_sum_def comp_def)

lemma groupby_sum_entry: "e \<in> set (groupby_sum rows) \<Longrightarrow> snd e = group_total rows (fst e)"
  by (auto simp: groupby_sum_def)

lemma argsort_stable_is_argsort: "is_argsort argsort_stable"
proof -
  have a: "mset (argsort_stable vs) = mset [0..<length vs]" for vs
  proof -
    have "mset (map snd (sort_key fst zs)) = mset (map snd zs)" for zs :: "(int \<times> nat) list"
      by simp
    then have "mset (map snd (sort_key fst (zip vs [0..<length vs]))) =
        mset (map snd (zip vs [0..<length vs]))" .
    also have "map snd (zip vs [0..<length vs]) = [0..<length vs]"
      by simp
    finally show ?thesis by (simp only: argsort_stable_def)
  qed
  have b: "sorted (map (\<lambda>i. vs ! i) (argsort_stable vs))" for vs :: "int list"
  proof -
    have "map (\<lambda>p. vs ! snd p) (sort_key fst (zip vs [0..<length vs])) =
        map fst (sort_key fst (zip vs [0..<length vs]))"
    proof (rule map_cong [OF refl])
      fix p
      assume "p \<in> set (sort_key fst (zip vs [0..<length vs]))"
      then have "(fst p, snd p) \<in> set (zip vs [0..<length vs])" by simp
      then obtain i where "vs ! i = fst p" "[0..<length vs] ! i = snd p" "i < length vs"
        unfolding in_set_zip by auto
      then show "vs ! snd p = fst p" by simp
    qed
    note e = this
    have m: "map (\<lambda>i. vs ! i) (argsort_stable vs) =
        map (\<lambda>p. vs ! snd p) (sort_key fst (zip vs [0..<length vs]))"
      by (simp add: argsort_stable_def comp_def)
    show ?thesis
      unfolding m e by (rule sorted_sort_key)
  qed
  from a b show ?thesis by (simp only: is_argsort_def simp_thms)
qed

lemma argsort_mset:
  assumes "is_argsort argsort"
  shows "mset (map f (argsort vs)) = mset (map f [0..<length vs])"
proof -
  from assms have "mset (argsort vs) = mset [0..<length vs]"
    by (simp add: is_argsort_def)
  then have "image_mset f (mset (argsort vs)) = image_mset f (mset [0..<length vs])"
    by (rule arg_cong)
  then show ?thesis by (simp only: mset_map)
qed

lemma argsort_less:
  assumes "is_argsort argsort" "i \<in> set (argsort vs)"
  shows "i < length vs"
proof -
  from assms(1) have "mset (argsort vs) = mset [0..<length vs]"
    by (simp add: is_argsort_def)
  then have "set (argsort vs) = set [0..<length vs]"
    by (rule mset_eq_setD)
  with assms(2) show ?thesis by simp
qed

lemma argsort_sorted:
  assumes "is_argsort argsort"
  shows "sorted (map (\<lambda>i. vs ! i) (argsort vs))"
  using assms by (simp add: is_argsort_def)

lemma map_rev_index: "map (\<lambda>i. s ! (length s - 1 - i)) [0..<length s] = rev s"
proof -
  have "map (\<lambda>i. s ! (length s - 1 - i)) [0..<length s] = map (\<lambda>i. rev s ! i) [0..<length s]"
    by (rule map_cong [OF refl]) (simp add: rev_nth)
  also have "\<dots> = rev s"
    using map_nth [of "rev s"] by simp
  finally show ?thesis .
qed

lemma mset_sort_values:
  assumes "is_argsort argsort"
  shows "mset (sort_values argsort asc s) = mset s"
proof (cases asc)
  case True
  have "mset (map (\<lambda>i. s ! i) (argsort (map snd s))) =
      mset (map (\<lambda>i. s ! i) [0..<length (map snd s)])"
    using assms by (rule argsort_mset)
  also have "\<dots> = mset s"
    by (simp only: length_map map_nth)
  finally show ?thesis using True by (simp add: sort_values_def)
next
  case False
  have "mset (map (\<lambda>i. s ! (length s - 1 - i)) (argsort (rev (map snd s)))) =
      mset (map (\<lambda>i. s ! (length s - 1 - i)) [0..<length (rev (map snd s))])"
    using assms by (rule argsort_mset)
  also have "\<dots> = mset (rev s)"
    by (simp only: length_map length_rev map_rev_index)
  finally show ?thesis using False by (simp add: sort_values_def)
qed

lemma set_sort_values:
  assumes "is_argsort argsort"
  shows "set (sort_values argsort asc s) = set s"
  using mset_sort_values [OF assms, of asc s] by (rule mset_eq_setD)

lemma sort_values_ascending:
  assumes "is_argsort argsort"
  shows "sorted (map snd (sort_values argsort True s))"
proof -
  have "map (\<lambda>i. snd (s ! i)) (argsort (map snd s)) =
      map (\<lambda>i. map snd s ! i) (argsort (map snd s))"
  proof (rule map_cong [OF refl])
    fix i
    assume "i \<in> set (argsort (map snd s))"
    with assms have "i < length (map snd s)" by (rule argsort_less)
    then show "snd (s ! i) = map snd s ! i" by simp
  qed
  note e = this
  have m: "map snd (sort_values argsort True s) =
      map (\<lambda>i. snd (s ! i)) (argsort (map snd s))"
    by (simp add: sort_values_def comp_def)
  show ?thesis
    unfolding m e using assms by (rule argsort_sorted)
qed

lemma sort_values_descending:
  assumes "is_argsort argsort"
  shows "sorted (rev (map snd (sort_values argsort False s)))"
proof -
  have "map (\<lambda>i. snd (s ! (length s - 1 - i))) (argsort (rev (map snd s))) =
      map (\<lambda>i. rev (map snd s) ! i) (argsort (rev (map snd s)))"
  proof (rule map_cong [OF refl])
    fix i
    assume "i \<in> set (argsort (rev (map snd s)))"
    with assms have "i < length (rev (map snd s))" by (rule argsort_less)
    then show "snd (s ! (length s - 1 - i)) = rev (map snd s) ! i"
      by (simp add: rev_nth)
  qed
  note e = this
  have m: "rev (map snd (sort_values argsort False s)) =
      map (\<lambda>i. snd (s ! (length s - 1 - i))) (argsort (rev (map snd s)))"
    by (simp add: sort_values_def comp_def rev_map)
  show ?thesis
    unfolding m e using assms by (rule argsort_sorted)
qed

lemma categories_total_set:
  assumes "is_argsort argsort"
  shows "set (map fst (sort_values argsort asc (groupby_sum rows))) = language_code ` set rows"
proof -
  have "set (map fst (sort_values argsort asc (groupby_sum rows))) =
      set (map fst (groupby_sum rows))"
    by (simp add: set_sort_values [OF assms])
  then show ?thesis by (simp add: groupby_sum_keys)
qed

lemma categories_total_distinct:
  assumes "is_argsort argsort"
  shows "distinct (map fst (sort_values argsort asc (groupby_sum rows)))"
proof -
  have "mset (map fst (sort_values argsort asc (groupby_sum rows))) =
      mset (map fst (groupby_sum rows))"
    by (simp add: mset_sort_values [OF assms])
  then have "distinct (map fst (sort_values argsort asc (groupby_sum rows))) =
      distinct (map fst (groupby_sum rows))"
    by (rule mset_eq_imp_distinct_iff)
  then show ?thesis by (simp add: groupby_sum_keys)
qed

lemma categories_total_sorted_asc:
  assumes "is_argsort argsort"
  shows "sorted_wrt (\<lambda>a b. group_total rows a \<le> group_total rows b)
     (map fst (sort_values argsort True (groupby_sum rows)))"
proof -
  have "sorted_wrt (\<lambda>x y. snd x \<le> snd y) (sort_values argsort True (groupby_sum rows))"
    using sort_values_ascending [OF assms, of "groupby_sum rows"]
    by (simp only: sorted_wrt_map)
  then have "sorted_wrt (\<lambda>x y. group_total rows (fst x) \<le> group_total rows (fst y))
     (sort_values argsort True (groupby_sum rows))"
  proof (rule sorted_wrt_mono_rel [rotated])
    fix x y
    assume "x \<in> set (sort_values argsort True (groupby_sum rows))"
      "y \<in> set (sort_values argsort True (groupby_sum rows))"
    then have "snd x = group_total rows (fst x)" "snd y = group_total rows (fst y)"
      by (simp_all add: set_sort_values [OF assms] groupby_sum_entry)
    moreover assume "snd x \<le> snd y"
    ultimately show "group_total rows (fst x) \<le> group_total rows (fst y)"
      by simp
  qed
  then show ?thesis by (simp add: sorted_wrt_map)
qed

lemma categories_total_sorted_desc:
  assumes "is_argsort argsort"
  shows "sorted_wrt (\<lambda>a b. group_total rows b \<le> group_total rows a)
     (map fst (sort_values argsort False (groupby_sum rows)))"
proof -
  have "sorted_wrt (\<lambda>x y. snd y \<le> snd x) (sort_values argsort False (groupby_sum rows))"
    using sort_values_descending [OF assms, of "groupby_sum rows"]
    by (simp only: sorted_wrt_rev sorted_wrt_map)
  then have "sorted_wrt (\<lambda>x y. group_total rows (fst y) \<le> group_total rows (fst x))
     (sort_values argsort False (groupby_sum rows))"
  proof (rule sorted_wrt_mono_rel [rotated])
    fix x y
    assume "x \<in> set (sort_values argsort False (groupby_sum rows))"
      "y \<in> set (sort_values argsort False (groupby_sum rows))"
    then have "snd x = group_total rows (fst x)" "snd y = group_total rows (fst y)"
      by (simp_all add: set_sort_values [OF assms] groupby_sum_entry)
    moreover assume "snd y \<le> snd x"
    ultimately show "group_total rows (fst y) \<le> group_total rows (fst x)"
      by simp
  qed
  then show ?thesis by (simp add: sorted_wrt_map)
qed

lemma categories_total_order:
  assumes "is_argsort argsort"
    and "sort_option = ''Total Articles (Descending)'' \<or>
         sort_option = ''Total Articles (Ascending)''"
  shows "distinct (categories argsort sort_option (filter_rows df langs subs) langs) \<and>
    set (categories argsort sort_option (filter_rows df langs subs) langs) =
      language_code ` set (filter_rows df langs subs) \<and>
    sorted_wrt
      (\<lambda>a b. if sort_option = ''Total Articles (Descending)''
              then group_total (filter_rows df langs subs) b \<le> group_total (filter_rows df langs subs) a
              else group_total (filter_rows df langs subs) a \<le> group_total (filter_rows df langs subs) b)
      (categories argsort sort_option (filter_rows df langs subs) langs)"
proof (cases "sort_option = ''Total Articles (Descending)''")
  case True
  then have c: "categories argsort sort_option (filter_rows df langs subs) langs =
      map fst (sort_values argsort False (groupby_sum (filter_rows df langs subs)))"
    by (simp add: categories_def)
  show ?thesis
    unfolding c using True
    by (simp only: categories_total_distinct [OF assms(1)] categories_total_set [OF assms(1)]
        categories_total_sorted_desc [OF assms(1)] if_True simp_thms)
next
  case False
  with assms(2) have a: "sort_option = ''Total Articles (Ascending)''" by simp
  then have c: "categories argsort sort_option (filter_rows df langs subs) langs =
      map fst (sort_values argsort True (groupby_sum (filter_rows df langs subs)))"
    by (simp add: categories_def)
  show ?thesis
    unfolding c using False
    by (simp only: categories_total_distinct [OF assms(1)] categories_total_set [OF assms(1)]
        categories_total_sorted_asc [OF assms(1)] if_False simp_thms)
qed

lemma unique_keys_total:
  assumes "is_argsort argsort"
    and "sort_option = ''Total Articles (Descending)'' \<or>
         sort_option = ''Total Articles (Ascending)''"
  shows "unique (map language_code (df_filtered argsort df langs subs sort_option)) =
     map Some (categories argsort sort_option (filter_rows df langs subs) langs)"
proof -
  let ?F = "filter_rows df langs subs"
  let ?cats = "categories argsort sort_option ?F langs"
  from categories_total_order [OF assms, of df langs subs]
  have d: "distinct ?cats" and s: "set ?cats = language_code ` set ?F"
    by blast+
  have a: "filter (\<lambda>l. l \<in> language_code ` set ?F) ?cats = ?cats"
    using s by (simp add: filter_id_conv)
  have b: "\<not> (\<exists>r\<in>set ?F. language_code r \<notin> set ?cats)"
    using s by blast
  from unique_keys_df_filtered [OF d] show ?thesis
    by (simp only: a b if_False append_Nil2)
qed

subsection \<open>Cells of the pivot and of the summary table\<close>

lemma set_df_filtered:
  "set (df_filtered argsort df langs subs so) =
   set (Categorical (categories argsort so (filter_rows df langs subs) langs) (filter_rows df langs subs))"
  by (simp add: df_filtered_def Let_def sort_values_language_def)

lemma in_Categorical:
  fixes r' :: "string option row"
  shows "r' \<in> set (Categorical cats rows) \<longleftrightarrow>
   (\<exists>r\<in>set rows. language_code r' =
        (if language_code r \<in> set cats then Some (language_code r) else None) \<and>
      subtopic r' = subtopic r \<and> article_count r' = article_count r)"
  by (cases r') (auto simp: Categorical_def image_iff)

lemma Categorical_key:
  "r' \<in> set (Categorical cats rows) \<Longrightarrow> language_code r' = Some l \<Longrightarrow> l \<in> set cats"
  by (auto simp: Categorical_def split: if_splits)

lemma map_of_zip_map_eq:
  "map_of (zip xs (map g xs)) k = (if k \<in> set xs then Some (g k) else None)"
  by (simp add: map_of_zip_map)

lemma loc_grid:
  "loc \<lparr>index = idx, columns = cols, cells = map (\<lambda>k. map (g k) cols) idx\<rparr> k s =
   (if k \<in> set idx \<and> s \<in> set cols then Some (g k s) else None)"
  by (simp add: loc_def map_of_zip_map_eq)

lemma sum_list_of_int: "sum_list (map of_int ns) = (of_int (sum_list ns) :: rat)"
  by (induction ns) simp_all

lemma foldl_fl_exact:
  assumes "0 \<le> a" "\<forall>n\<in>set ns. 0 \<le> n" "a + sum_list ns \<le> 2 ^ 53"
  shows "foldl (\<lambda>acc x. fl (acc + x)) (of_int a) (map of_int ns) = of_int (a + sum_list ns)"
  using assms
proof (induction ns arbitrary: a)
  case Nil
  then show ?case by simp
next
  case (Cons n ns)
  have s: "0 \<le> sum_list ns"
    using Cons.prems(2) by (intro sum_list_nonneg) simp
  have n: "0 \<le> n" using Cons.prems(2) by simp
  have "fl (of_int a + of_int n) = fl (of_int (a + n))" by simp
  also have "\<dots> = of_int (a + n)"
    using Cons.prems(1,3) n s by (intro fl_of_int) simp_all
  finally have e: "fl (of_int a + of_int n) = of_int (a + n)" .
  have "foldl (\<lambda>acc x. fl (acc + x)) (of_int (a + n)) (map of_int ns) =
      of_int (a + n + sum_list ns)"
    using Cons.prems n by (intro Cons.IH) simp_all
  then show ?case by (simp add: e add.assoc)
qed

lemma fsum_exact:
  assumes "\<forall>n\<in>set ns. 0 \<le> n" "sum_list ns \<le> 2 ^ 53"
  shows "fsum (map of_int ns) = sum_list (map of_int ns)"
proof -
  have "foldl (\<lambda>acc x. fl (acc + x)) (of_int 0) (map of_int ns) = of_int (0 + sum_list ns)"
    using assms by (intro foldl_fl_exact) simp_all
  then show ?thesis by (simp add: fsum_def sum_list_of_int)
qed

lemma sum_list_filter_le:
  fixes f :: "'a \<Rightarrow> int"
  assumes "\<forall>x\<in>set xs. 0 \<le> f x"
  shows "sum_list (map f (filter P xs)) \<le> sum_list (map f xs)"
  using assms by (induction xs) auto

lemma sum_list_filter_split:
  fixes f :: "'a \<Rightarrow> int"
  assumes "c \<notin> set cs"
  shows "sum_list (map f (filter (\<lambda>r. g r \<in> set (c # cs)) xs)) =
     sum_list (map f (filter (\<lambda>r. g r = c) xs)) +
     sum_list (map f (filter (\<lambda>r. g r \<in> set cs) xs))"
  using assms by (induction xs) auto

lemma sum_list_sort_key:
  fixes f :: "'a \<Rightarrow> int"
  shows "sum_list (map f (sort_key k xs)) = sum_list (map f xs)"
proof -
  have "mset (map f (sort_key k xs)) = mset (map f xs)" by simp
  then have "sum_mset (mset (map f (sort_key k xs))) = sum_mset (mset (map f xs))"
    by (rule arg_cong)
  then show ?thesis by (simp only: sum_mset_sum_list)
qed

lemma counts_df_filtered:
  "sum_list (map article_count (df_filtered argsort df langs subs so)) =
   sum_list (map article_count (filter_rows df langs subs))"
proof -
  have "map article_count (Categorical cats rows) = map article_count rows" for cats rows
    by (simp add: Categorical_def comp_def)
  then show ?thesis
    by (simp add: df_filtered_def Let_def sort_values_language_def sum_list_sort_key)
qed

lemma cell_nonneg:
  fixes rows :: "string option row list"
  assumes "\<forall>r\<in>set rows. 0 \<le> article_count r"
  shows "0 \<le> (case filter P rows of [] \<Rightarrow> 0 | r # _ \<Rightarrow> article_count r)"
proof (cases "filter P rows")
  case Nil
  then show ?thesis by simp
next
  case (Cons r rs)
  then have "r \<in> set (filter P rows)" by simp
  then have "r \<in> set rows" by simp
  with assms Cons show ?thesis by simp
qed

lemma cell_le:
  fixes rows :: "string option row list"
  assumes "\<forall>r\<in>set rows. 0 \<le> article_count r"
  shows "(case filter (\<lambda>r. language_code r = k \<and> subtopic r = s) rows of
         [] \<Rightarrow> 0 | r # _ \<Rightarrow> article_count r) \<le>
     sum_list (map article_count (filter (\<lambda>r. subtopic r = s) rows))"
proof -
  let ?X = "filter (\<lambda>r. language_code r = k \<and> subtopic r = s) rows"
  let ?Y = "filter (\<lambda>r. subtopic r = s) rows"
  have X: "?X = filter (\<lambda>r. language_code r = k) ?Y"
    by (simp add: conj_commute)
  have Y: "\<forall>r\<in>set ?Y. 0 \<le> article_count r" using assms by simp
  then have le: "sum_list (map article_count ?X) \<le> sum_list (map article_count ?Y)"
    unfolding X by (rule sum_list_filter_le)
  show ?thesis
  proof (cases ?X)
    case Nil
    have "0 \<le> sum_list (map article_count ?Y)"
      using Y by (intro sum_list_nonneg) auto
    with Nil show ?thesis by simp
  next
    case (Cons r rs)
    then have r: "r \<in> set ?X" by simp
    have "article_count r \<le> sum_list (map article_count ?X)"
    proof (rule nonneg_le_sum_list [OF _ r])
      fix y
      assume "y \<in> set ?X"
      then have "y \<in> set rows" by simp
      with assms show "0 \<le> article_count y" by simp
    qed
    with le Cons show ?thesis by simp
  qed
qed

lemma cells_sum_le:
  fixes rows :: "string option row list"
  assumes "\<forall>r\<in>set rows. 0 \<le> article_count r" "distinct cols"
  shows "sum_list (map (\<lambda>s. case filter (\<lambda>r. language_code r = k \<and> subtopic r = s) rows of
         [] \<Rightarrow> 0 | r # _ \<Rightarrow> article_count r) cols) \<le>
     sum_list (map article_count (filter (\<lambda>r. subtopic r \<in> set cols) rows))"
  using assms(2)
proof (induction cols)
  case Nil
  then show ?case by simp
next
  case (Cons c cs)
  then have c: "c \<notin> set cs" and d: "distinct cs" by simp_all
  note Cons.IH [OF d] cell_le [OF assms(1), of k c]
  then show ?case
    by (simp only: list.map sum_list.Cons sum_list_filter_split [OF c])
qed

lemma pivot_cell_conv:
  assumes "\<And>r. r \<in> set rows \<Longrightarrow> conv (article_count r) = of_int (article_count r)"
  shows "pivot_cell conv rows k s = pivot_cell of_int rows k s"
proof (cases "filter (\<lambda>r. language_code r = k \<and> subtopic r = s) rows")
  case Nil
  then show ?thesis by (simp add: pivot_cell_def)
next
  case (Cons r rs)
  then have "r \<in> set (filter (\<lambda>r. language_code r = k \<and> subtopic r = s) rows)" by simp
  then have "r \<in> set rows" by simp
  then have "conv (article_count r) = of_int (article_count r)" by (rule assms)
  with Cons show ?thesis by (simp add: pivot_cell_def)
qed

lemma fillna_pivot:
  assumes "pivot cats rows = Inr w"
    and "\<And>r. r \<in> set rows \<Longrightarrow> 0 \<le> article_count r \<and> article_count r \<le> 2 ^ 53"
  shows "fillna 0 w = \<lparr>index = pivot_index cats rows, columns = sort (remdups (map subtopic rows)),
     cells = map (\<lambda>k. map (\<lambda>s. fill 0 (pivot_cell of_int rows k s)) (sort (remdups (map subtopic rows))))
        (pivot_index cats rows)\<rparr>"
proof -
  let ?cols = "sort (remdups (map subtopic rows))"
  let ?idx = "pivot_index cats rows"
  let ?conv = "if mask_all rows ?idx ?cols then of_int else float_of_int"
  have "?conv (article_count r) = of_int (article_count r)" if "r \<in> set rows" for r
    using assms(2) [OF that] by (simp add: float_of_int_exact)
  then have "pivot_cell ?conv rows k s = pivot_cell of_int rows k s" for k s
    by (rule pivot_cell_conv)
  then have c: "pivot_cell ?conv rows = pivot_cell of_int rows"
    by (intro ext)
  from assms(1) have "w = \<lparr>index = ?idx, columns = ?cols,
      cells = map (\<lambda>k. map (pivot_cell ?conv rows k) ?cols) ?idx\<rparr>"
    by (simp add: pivot_def Let_def split: if_splits)
  then have "w = \<lparr>index = ?idx, columns = ?cols,
      cells = map (\<lambda>k. map (pivot_cell of_int rows k) ?cols) ?idx\<rparr>"
    by (simp only: c)
  then show ?thesis
    by (simp add: fillna_def comp_def)
qed

lemma pivot_distinct:
  "pivot cats rows = Inr w \<Longrightarrow> distinct (map (\<lambda>r. (language_code r, subtopic r)) rows)"
  by (auto simp: pivot_def split: if_splits)

lemma pivot_cell_Some:
  assumes "pivot_cell of_int rows k s = Some v"
  shows "\<exists>r\<in>set rows. language_code r = k \<and> subtopic r = s \<and> v = of_int (article_count r)"
proof (cases "filter (\<lambda>r. language_code r = k \<and> subtopic r = s) rows")
  case Nil
  with assms show ?thesis by (simp add: pivot_cell_def)
next
  case (Cons r rs)
  then have "r \<in> set (filter (\<lambda>r. language_code r = k \<and> subtopic r = s) rows)" by simp
  then have "r \<in> set rows" "language_code r = k" "subtopic r = s" by simp_all
  moreover have "v = of_int (article_count r)"
    using assms Cons by (simp add: pivot_cell_def)
  ultimately show ?thesis by blast
qed

lemma filter_distinct_map:
  assumes "distinct (map f xs)" "x \<in> set xs"
  shows "filter (\<lambda>y. f y = f x) xs = [x]"
  using assms
proof (induction xs)
  case Nil
  then show ?case by simp
next
  case (Cons a xs)
  show ?case
  proof (cases "a = x")
    case True
    have "f x \<notin> f ` set xs" using Cons.prems(1) True by simp
    then have "f y \<noteq> f x" if "y \<in> set xs" for y
      using that by (metis imageI)
    then have "filter (\<lambda>y. f y = f x) xs = []"
      by (simp add: filter_empty_conv)
    with True show ?thesis by simp
  next
    case False
    with Cons.prems have x: "x \<in> set xs" by simp
    then have "f a \<noteq> f x" using Cons.prems(1) by auto
    moreover have "filter (\<lambda>y. f y = f x) xs = [x]"
      using Cons x by simp
    ultimately show ?thesis by simp
  qed
qed

lemma filter_pair:
  assumes "distinct (map (\<lambda>r. (language_code r, subtopic r)) rows)" "r \<in> set rows"
  shows "filter (\<lambda>x. language_code x = language_code r \<and> subtopic x = subtopic r) rows = [r]"
proof -
  have "filter (\<lambda>y. (language_code y, subtopic y) = (language_code r, subtopic r)) rows = [r]"
    using assms by (rule filter_distinct_map)
  then show ?thesis by simp
qed

lemma pivot_cell_row:
  assumes "distinct (map (\<lambda>r. (language_code r, subtopic r)) rows)" "r \<in> set rows"
  shows "pivot_cell of_int rows (language_code r) (subtopic r) = Some (of_int (article_count r))"
  by (simp add: pivot_cell_def filter_pair [OF assms])

lemma pivot_index_Some:
  "Some l \<in> set (pivot_index cats rows) \<longleftrightarrow>
   l \<in> set cats \<and> Some l \<in> language_code ` set rows"
  by (auto simp: pivot_index_def)

lemma pivot_table_cell_fill:
  assumes "distinct (map (\<lambda>r. (language_code r, subtopic r)) rows)"
    and "\<And>r. r \<in> set rows \<Longrightarrow> 0 \<le> article_count r \<and> article_count r \<le> 2 ^ 53"
  shows "pivot_table_cell rows l s = fill 0 (pivot_cell of_int rows (Some l) s)"
proof (cases "filter (\<lambda>r. language_code r = Some l \<and> subtopic r = s) rows")
  case Nil
  then show ?thesis by (simp add: pivot_table_cell_def pivot_cell_def fill_def)
next
  case (Cons r rs)
  then have "r \<in> set (filter (\<lambda>r. language_code r = Some l \<and> subtopic r = s) rows)" by simp
  then have r: "r \<in> set rows" "language_code r = Some l" "subtopic r = s" by simp_all
  from filter_pair [OF assms(1) r(1)] r
  have f: "filter (\<lambda>r. language_code r = Some l \<and> subtopic r = s) rows = [r]" by simp
  have "mean [article_count r] = of_int (article_count r)"
    using assms(2) [OF r(1)] by (simp add: mean_def fsum_def float_of_int_def fl_of_int)
  then show ?thesis
    by (simp add: pivot_table_cell_def pivot_cell_def fill_def f)
qed

lemma pivot_cell_of_int:
  "fill 0 (pivot_cell of_int rows k s) =
   of_int (case filter (\<lambda>r. language_code r = k \<and> subtopic r = s) rows of
         [] \<Rightarrow> 0 | r # _ \<Rightarrow> article_count r)"
  by (simp add: pivot_cell_def fill_def split: list.split)

lemma pivot_cell_None:
  "s \<notin> subtopic ` {r \<in> set rows. language_code r = k} \<Longrightarrow> pivot_cell of_int rows k s = None"
proof -
  assume "s \<notin> subtopic ` {r \<in> set rows. language_code r = k}"
  then have "filter (\<lambda>r. language_code r = k \<and> subtopic r = s) rows = []"
    by (auto simp: filter_empty_conv)
  then show ?thesis by (simp add: pivot_cell_def)
qed

lemma row_sums_agree:
  fixes g :: "string \<Rightarrow> rat"
  assumes "set xs \<subseteq> set ys" and "\<And>s. s \<in> set ys \<Longrightarrow> s \<notin> set xs \<Longrightarrow> g s = 0"
  shows "sum_list (map g (sort (remdups xs))) = sum_list (map g (sort (remdups ys)))"
proof -
  have "sum_list (map g (sort (remdups xs))) = sum g (set xs)"
    by (simp add: sum_list_distinct_conv_sum_set)
  also have "\<dots> = sum g (set ys)"
    using assms by (intro sum.mono_neutral_left) auto
  also have "\<dots> = sum_list (map g (sort (remdups ys)))"
    by (simp add: sum_list_distinct_conv_sum_set)
  finally show ?thesis .
qed

lemma pivot_table_row_sum:
  assumes "distinct (map (\<lambda>r. (language_code r, subtopic r)) rows)"
    and "\<And>r. r \<in> set rows \<Longrightarrow> 0 \<le> article_count r \<and> article_count r \<le> 2 ^ 53"
  shows "sum_list (map (pivot_table_cell rows l)
       (sort (remdups (map subtopic (filter (\<lambda>r. language_code r \<noteq> None) rows))))) =
     sum_list (map (\<lambda>s. fill 0 (pivot_cell of_int rows (Some l) s)) (sort (remdups (map subtopic rows))))"
proof -
  have "sum_list (map (\<lambda>s. fill 0 (pivot_cell of_int rows (Some l) s))
       (sort (remdups (map subtopic (filter (\<lambda>r. language_code r \<noteq> None) rows))))) =
     sum_list (map (\<lambda>s. fill 0 (pivot_cell of_int rows (Some l) s)) (sort (remdups (map subtopic rows))))"
  proof (rule row_sums_agree)
    show "set (map subtopic (filter (\<lambda>r. language_code r \<noteq> None) rows)) \<subseteq> set (map subtopic rows)"
      by auto
  next
    fix s
    assume "s \<notin> set (map subtopic (filter (\<lambda>r. language_code r \<noteq> None) rows))"
    then have "s \<notin> subtopic ` {r \<in> set rows. language_code r = Some l}" by auto
    then have "pivot_cell of_int rows (Some l) s = None" by (rule pivot_cell_None)
    then show "fill 0 (pivot_cell of_int rows (Some l) s) = 0" by (simp add: fill_def)
  qed
  moreover have "pivot_table_cell rows l = (\<lambda>s. fill 0 (pivot_cell of_int rows (Some l) s))"
    by (rule ext) (rule pivot_table_cell_fill [OF assms])
  ultimately show ?thesis by (simp only:)
qed

lemma fsum_pivot_table_row:
  assumes "distinct (map (\<lambda>r. (language_code r, subtopic r)) rows)"
    and "\<forall>r\<in>set rows. 0 \<le> article_count r"
    and "sum_list (map article_count rows) \<le> 2 ^ 53"
    and "distinct cols"
  shows "fsum (map (pivot_table_cell rows l) cols) = sum_list (map (pivot_table_cell rows l) cols)"
proof -
  let ?ci = "\<lambda>s. case filter (\<lambda>r. language_code r = Some l \<and> subtopic r = s) rows of
         [] \<Rightarrow> 0 | r # _ \<Rightarrow> article_count r"
  have b: "0 \<le> article_count r \<and> article_count r \<le> 2 ^ 53" if "r \<in> set rows" for r
  proof -
    have "article_count r \<le> sum_list (map article_count rows)"
      using assms(2) that by (intro nonneg_le_sum_list) simp_all
    with assms(2,3) that show ?thesis by simp
  qed
  have "pivot_table_cell rows l s = of_int (?ci s)" for s
    using pivot_table_cell_fill [OF assms(1) b, of l s] by (simp only: pivot_cell_of_int)
  then have e: "map (pivot_table_cell rows l) cols = map of_int (map ?ci cols)"
    by simp
  have n: "\<forall>n\<in>set (map ?ci cols). 0 \<le> n"
    using cell_nonneg [OF assms(2)] by simp
  have "sum_list (map ?ci cols) \<le>
      sum_list (map article_count (filter (\<lambda>r. subtopic r \<in> set cols) rows))"
    using assms(2,4) by (rule cells_sum_le)
  also have "\<dots> \<le> sum_list (map article_count rows)"
    using assms(2) by (rule sum_list_filter_le)
  finally have s: "sum_list (map ?ci cols) \<le> 2 ^ 53"
    using assms(3) by simp
  show ?thesis
    unfolding e using n s by (rule fsum_exact)
qed

lemma map_of_zip_update:
  "c \<in> set cols \<Longrightarrow> length r = length cols \<Longrightarrow>
   map_of (zip cols (r[position cols c := v])) c = Some v"
proof (induction cols arbitrary: r)
  case Nil
  then show ?case by simp
next
  case (Cons a cols)
  then obtain x xs where r: "r = x # xs" by (cases r) auto
  show ?case
  proof (cases "c = a")
    case True
    with r show ?thesis by simp
  next
    case False
    with Cons r show ?thesis by simp
  qed
qed

lemma map_of_zip_append:
  "c \<notin> set cols \<Longrightarrow> length r = length cols \<Longrightarrow>
   map_of (zip (cols @ [c]) (r @ [v])) c = Some v"
proof (induction cols arbitrary: r)
  case Nil
  then show ?case by simp
next
  case (Cons a cols)
  then obtain x xs where r: "r = x # xs" by (cases r) auto
  with Cons show ?case by simp
qed

lemma column_assign_column:
  assumes "length col = length (cells f)"
    and "\<And>r. r \<in> set (cells f) \<Longrightarrow> length r = length (columns f)"
  shows "column (assign_column name col f) name = map Some col"
proof (cases "name \<in> set (columns f)")
  case True
  have "map_of (zip (columns f) (r[position (columns f) name := v])) name = Some v"
    if "(r, v) \<in> set (zip (cells f) col)" for r v
  proof (rule map_of_zip_update [OF True])
    from that have "r \<in> set (cells f)" by (rule set_zip_leftD)
    then show "length r = length (columns f)" by (rule assms(2))
  qed
  then have "map (\<lambda>r. map_of (zip (columns f) r) name)
      (map (\<lambda>(r, v). r[position (columns f) name := v]) (zip (cells f) col)) =
      map (\<lambda>(r, v). Some v) (zip (cells f) col)"
    by auto
  also have "\<dots> = map Some (map snd (zip (cells f) col))"
    by (simp add: case_prod_unfold)
  also have "\<dots> = map Some col" using assms(1) by simp
  finally show ?thesis using True by (simp add: column_def assign_column_def)
next
  case False
  have "map_of (zip (columns f @ [name]) (r @ [v])) name = Some v"
    if "(r, v) \<in> set (zip (cells f) col)" for r v
  proof (rule map_of_zip_append [OF False])
    from that have "r \<in> set (cells f)" by (rule set_zip_leftD)
    then show "length r = length (columns f)" by (rule assms(2))
  qed
  then have "map (\<lambda>r. map_of (zip (columns f @ [name]) r) name)
      (map (\<lambda>(r, v). r @ [v]) (zip (cells f) col)) =
      map (\<lambda>(r, v). Some v) (zip (cells f) col)"
    by auto
  also have "\<dots> = map Some (map snd (zip (cells f) col))"
    by (simp add: case_prod_unfold)
  also have "\<dots> = map Some col" using assms(1) by simp
  finally show ?thesis using False by (simp add: column_def assign_column_def)
qed

lemma zip_index_column:
  "zip (map h idx) (map Some (map sum_list (map (\<lambda>l. map (g l) cols) idx))) =
   map (\<lambda>l. (h l, Some (sum_list (map (g l) cols)))) idx"
  by (induction idx) simp_all

lemma labelled_rows:
  "[(h l, Some t). (Some l, t) \<leftarrow> zip (pre @ map Some ls)
        (map sum_list (map (\<lambda>k. map (g k) cols) (pre @ map Some ls)))] =
   map (\<lambda>l. (h l, Some (sum_list (map (g (Some l)) cols)))) ls"
  if "pre = [] \<or> pre = [None]"
proof -
  have a: "[(h l, Some t). (Some l, t) \<leftarrow> zip (map Some ls)
        (map sum_list (map (\<lambda>k. map (g k) cols) (map Some ls)))] =
     map (\<lambda>l. (h l, Some (sum_list (map (g (Some l)) cols)))) ls"
    by (induction ls) simp_all
  from that show ?thesis
  proof
    assume "pre = []"
    with a show ?thesis by simp
  next
    assume "pre = [None]"
    with a show ?thesis by simp
  qed
qed

lemma pivot_table_index:
  "index (pivot_table cats rows) =
   filter (\<lambda>l. Some l \<in> set (map language_code rows)) cats"
proof -
  have "Some l \<in> set (map language_code (filter (\<lambda>r. language_code r \<noteq> None) rows)) \<longleftrightarrow>
      Some l \<in> set (map language_code rows)" for l
    by (induction rows) auto
  then show ?thesis by (simp add: pivot_table_def Let_def)
qed

lemma summary_totals:
  assumes "distinct (map (\<lambda>r. (language_code r, subtopic r)) rows)"
    and "\<forall>r\<in>set rows. 0 \<le> article_count r"
    and "sum_list (map article_count rows) \<le> 2 ^ 53"
  shows "zip (index (make_summary cats rows)) (column (make_summary cats rows) ''Total'') =
    [(language_label l, Some t). (Some l, t) \<leftarrow> zip (pivot_index cats rows)
        (map sum_list (map (\<lambda>k. map (\<lambda>s. fill 0 (pivot_cell of_int rows k s))
            (sort (remdups (map subtopic rows)))) (pivot_index cats rows)))]"
proof -
  let ?t = "pivot_table cats rows"
  let ?ls = "filter (\<lambda>l. Some l \<in> set (map language_code rows)) cats"
  let ?colsS = "sort (remdups (map subtopic (filter (\<lambda>r. language_code r \<noteq> None) rows)))"
  let ?colsW = "sort (remdups (map subtopic rows))"
  have i: "index ?t = ?ls" by (rule pivot_table_index)
  have c: "cells ?t = map (\<lambda>l. map (pivot_table_cell rows l) ?colsS) ?ls"
    using i by (simp add: pivot_table_def Let_def)
  have k: "columns ?t = ?colsS" by (simp add: pivot_table_def Let_def)
  have b: "0 \<le> article_count r \<and> article_count r \<le> 2 ^ 53" if "r \<in> set rows" for r
  proof -
    have "article_count r \<le> sum_list (map article_count rows)"
      using assms(2) that by (intro nonneg_le_sum_list) simp_all
    with assms(2,3) that show ?thesis by simp
  qed
  have "fsum (map (pivot_table_cell rows l) ?colsS) =
      sum_list (map (pivot_table_cell rows l) ?colsS)" for l
    using assms by (rule fsum_pivot_table_row) simp
  then have fs: "map fsum (cells ?t) = map sum_list (cells ?t)"
    by (simp add: c)
  have "column (make_summary cats rows) ''Total'' =
      column (assign_column ''Total'' (map fsum (cells ?t)) ?t) ''Total''"
    by (simp add: make_summary_def Let_def column_def)
  also have "\<dots> = map Some (map fsum (cells ?t))"
  proof (rule column_assign_column)
    show "length (map fsum (cells ?t)) = length (cells ?t)" by simp
  next
    fix r
    assume "r \<in> set (cells ?t)"
    then show "length r = length (columns ?t)" by (auto simp: c k)
  qed
  also have "\<dots> = map Some (map sum_list (cells ?t))"
    by (simp only: fs)
  finally have col: "column (make_summary cats rows) ''Total'' =
      map Some (map sum_list (map (\<lambda>l. map (pivot_table_cell rows l) ?colsS) ?ls))"
    by (simp only: c)
  have "index (assign_column ''Total'' col ?t) = index ?t" for col
    by (simp add: assign_column_def)
  then have idx: "index (make_summary cats rows) = map language_label ?ls"
    by (simp add: make_summary_def Let_def i)
  have "zip (index (make_summary cats rows)) (column (make_summary cats rows) ''Total'') =
      map (\<lambda>l. (language_label l, Some (sum_list (map (pivot_table_cell rows l) ?colsS)))) ?ls"
    by (simp only: idx col zip_index_column)
  also have "\<dots> = map (\<lambda>l. (language_label l,
        Some (sum_list (map (\<lambda>s. fill 0 (pivot_cell of_int rows (Some l) s)) ?colsW)))) ?ls"
    by (simp only: pivot_table_row_sum [OF assms(1) b])
  also have "\<dots> = [(language_label l, Some t). (Some l, t) \<leftarrow>
      zip ((if None \<in> set (map language_code rows) then [None] else []) @ map Some ?ls)
        (map sum_list (map (\<lambda>k. map (\<lambda>s. fill 0 (pivot_cell of_int rows k s)) ?colsW)
          ((if None \<in> set (map language_code rows) then [None] else []) @ map Some ?ls)))]"
    by (rule labelled_rows [symmetric]) simp
  finally show ?thesis by (simp only: pivot_index_def)
qed

lemma run_page_Inr:
  assumes "run_page argsort df langs subs ct so = Inr p"
  shows "\<exists>w. pivot (categories argsort so (filter_rows df langs subs) langs)
          (df_filtered argsort df langs subs so) = Inr w \<and>
      df_wide p = fillna 0 w \<and>
      summary_df p = make_summary (categories argsort so (filter_rows df langs subs) langs)
          (df_filtered argsort df langs subs so)"
  using assms by (auto simp: run_page_def Let_def split: sum.splits)

section \<open>Duplicate (language, subtopic) pairs (C1)\<close>

text \<open>
  C1, as stated: every table that contains two rows with the same (language_code, subtopic)
  pair makes the pivot fail. It does not: the pivot of line 146 sees the filtered rows
  only. With the two \<open>fr\<close>/\<open>Policy\<close> rows below and the selection \<open>English (en)\<close> the run
  ends without an exception and shows the page of the English row.
\<close>

theorem duplicates_outside_selection_render:
  "render argsort_stable
     [\<lparr>language_code = ''fr'', subtopic = ''Policy'', article_count = 1\<rparr>,
      \<lparr>language_code = ''fr'', subtopic = ''Policy'', article_count = 2\<rparr>,
      \<lparr>language_code = ''en'', subtopic = ''Policy'', article_count = 3\<rparr>]
     ''English (en)'' ''All Subtopics'' ''Stacked Bar'' ''Default Order'' =
   Inr \<lparr>df_wide = \<lparr>index = [Some ''en''], columns = [''Policy''], cells = [[3]]\<rparr>,
        chart = StackedBar
           [\<lparr>language_code = Some ''en'', subtopic = ''Policy'',
               article_count = 3, language_name = Some ''English''\<rparr>],
        total_articles = 3, num_languages = 1, num_subtopics = 1,
        summary_df =
          \<lparr>index = [''English (en)''], columns = [''Policy'', ''Total''],
             cells = [[3, 3]]\<rparr>\<rparr>"
  by code_simp

text \<open>
  C1, amended: when two of the rows that pass the filter have the same
  (language_code, subtopic) pair, the run ends at the pivot of line 146 with the ValueError
  of pandas, whatever the chart type and the sort option; no page, and so no summary table
  that would average the two values, is produced.
\<close>

theorem duplicate_in_filtered_rows_fails:
  assumes "selected_languages df selected_language = Inr langs"
    and "\<not> distinct (map (\<lambda>r. (language_code r, subtopic r))
            (filter_rows df langs (selected_subtopics df selected_subtopic)))"
  shows "render argsort df selected_language selected_subtopic chart_type sort_option = Inl ValueError"
  using assms by (simp add: render_def run_page_duplicates)

theorem duplicate_in_filtered_rows_fails_witness:
  "selected_languages
     [\<lparr>language_code = ''fr'', subtopic = ''Policy'', article_count = 1\<rparr>,
      \<lparr>language_code = ''fr'', subtopic = ''Policy'', article_count = 2\<rparr>]
     ''French (fr)'' = Inr [''fr''] \<and>
   \<not> distinct (map (\<lambda>r. (language_code r, subtopic r))
      (filter_rows
         [\<lparr>language_code = ''fr'', subtopic = ''Policy'', article_count = 1\<rparr>,
          \<lparr>language_code = ''fr'', subtopic = ''Policy'', article_count = 2\<rparr>]
         [''fr'']
         (selected_subtopics
            [\<lparr>language_code = ''fr'', subtopic = ''Policy'', article_count = 1\<rparr>,
             \<lparr>language_code = ''fr'', subtopic = ''Policy'', article_count = 2\<rparr>]
            ''All Subtopics''))) \<and>
   render argsort_stable
     [\<lparr>language_code = ''fr'', subtopic = ''Policy'', article_count = 1\<rparr>,
      \<lparr>language_code = ''fr'', subtopic = ''Policy'', article_count = 2\<rparr>]
     ''French (fr)'' ''All Subtopics'' ''Percentage Stacked'' ''Total Articles (Descending)'' =
   Inl ValueError"
proof -
  have a: "selected_languages
     [\<lparr>language_code = ''fr'', subtopic = ''Policy'', article_count = 1\<rparr>,
      \<lparr>language_code = ''fr'', subtopic = ''Policy'', article_count = 2\<rparr>]
     ''French (fr)'' = Inr [''fr'']"
    by code_simp
  have b: "\<not> distinct (map (\<lambda>r. (language_code r, subtopic r))
      (filter_rows
         [\<lparr>language_code = ''fr'', subtopic = ''Policy'', article_count = 1\<rparr>,
          \<lparr>language_code = ''fr'', subtopic = ''Policy'', article_count = 2\<rparr>]
         [''fr'']
         (selected_subtopics
            [\<lparr>language_code = ''fr'', subtopic = ''Policy'', article_count = 1\<rparr>,
             \<lparr>language_code = ''fr'', subtopic = ''Policy'', article_count = 2\<rparr>]
            ''All Subtopics'')))"
    by code_simp
  note c = duplicate_in_filtered_rows_fails [OF a b,
      of argsort_stable "''Percentage Stacked''" "''Total Articles (Descending)''"]
  show ?thesis
    by (intro conjI) (rule a b c)+
qed

section \<open>Unrecognized mode strings (C4)\<close>

text \<open>
  C4, as stated: a sort or chart mode string outside the listed options is rejected with an
  error. It is not: neither \<open>if\<close> chain has a rejecting branch. With the chart type
  \<open>Pie Chart\<close> and the sort option \<open>Alphabetical\<close> the run ends without an exception
  and shows a percentage chart in the default order.
\<close>

theorem unrecognized_modes_render:
  "render argsort_stable
     [\<lparr>language_code = ''en'', subtopic = ''Policy'', article_count = 3\<rparr>,
      \<lparr>language_code = ''ar'', subtopic = ''Policy'', article_count = 4\<rparr>]
     ''All Languages'' ''All Subtopics'' ''Pie Chart'' ''Alphabetical'' =
   Inr \<lparr>df_wide = \<lparr>index = [Some ''en'', Some ''ar''], columns = [''Policy''],
                    cells = [[3], [4]]\<rparr>,
        chart = PercentStacked
           [\<lparr>language_code = Some ''en'', subtopic = ''Policy'',
               article_count = 3, language_name = Some ''English'', percentage = Finite 100\<rparr>,
            \<lparr>language_code = Some ''ar'', subtopic = ''Policy'',
               article_count = 4, language_name = Some ''Arabic'', percentage = Finite 100\<rparr>],
        total_articles = 7, num_languages = 2, num_subtopics = 1,
        summary_df =
          \<lparr>index = [''English (en)'', ''Arabic (ar)''], columns = [''Policy'', ''Total''],
             cells = [[3, 3], [4, 4]]\<rparr>\<rparr>"
  by code_simp

text \<open>
  C4, amended: a sort option other than the two total orders is treated as
  \<open>Default Order\<close> (the \<open>else\<close> of line 134), and a chart type other than
  \<open>Stacked Bar\<close> and \<open>Grouped Bar\<close> is treated as \<open>Percentage Stacked\<close> (the
  \<open>else\<close> of line 198); the run is the same as with those options.
\<close>

theorem unrecognized_modes_fall_through:
  "(sort_option \<noteq> ''Total Articles (Descending)'' \<and>
    sort_option \<noteq> ''Total Articles (Ascending)'' \<longrightarrow>
      render argsort df selected_language selected_subtopic chart_type sort_option =
      render argsort df selected_language selected_subtopic chart_type ''Default Order'') \<and>
   (chart_type \<noteq> ''Stacked Bar'' \<and> chart_type \<noteq> ''Grouped Bar'' \<longrightarrow>
      render argsort df selected_language selected_subtopic chart_type sort_option =
      render argsort df selected_language selected_subtopic ''Percentage Stacked'' sort_option)"
proof (intro conjI impI)
  assume a: "sort_option \<noteq> ''Total Articles (Descending)'' \<and>
             sort_option \<noteq> ''Total Articles (Ascending)''"
  have "run_page argsort df langs subs chart_type sort_option =
        run_page argsort df langs subs chart_type ''Default Order''" for langs subs
    using a by (intro run_page_default) simp_all
  then show "render argsort df selected_language selected_subtopic chart_type sort_option =
      render argsort df selected_language selected_subtopic chart_type ''Default Order''"
    by (simp only: render_def)
next
  assume a: "chart_type \<noteq> ''Stacked Bar'' \<and> chart_type \<noteq> ''Grouped Bar''"
  have "run_page argsort df langs subs chart_type sort_option =
        run_page argsort df langs subs ''Percentage Stacked'' sort_option" for langs subs
    using a by (intro run_page_percent) simp_all
  then show "render argsort df selected_language selected_subtopic chart_type sort_option =
      render argsort df selected_language selected_subtopic ''Percentage Stacked'' sort_option"
    by (simp only: render_def)
qed

theorem unrecognized_modes_fall_through_witness:
  "''Alphabetical'' \<noteq> ''Total Articles (Descending)'' \<and>
   ''Alphabetical'' \<noteq> ''Total Articles (Ascending)'' \<and>
   ''Pie Chart'' \<noteq> ''Stacked Bar'' \<and> ''Pie Chart'' \<noteq> ''Grouped Bar'' \<and>
   render argsort_stable [\<lparr>language_code = ''en'', subtopic = ''Policy'', article_count = 3\<rparr>]
     ''All Languages'' ''All Subtopics'' ''Pie Chart'' ''Alphabetical'' =
   render argsort_stable [\<lparr>language_code = ''en'', subtopic = ''Policy'', article_count = 3\<rparr>]
     ''All Languages'' ''All Subtopics'' ''Pie Chart'' ''Default Order'' \<and>
   render argsort_stable [\<lparr>language_code = ''en'', subtopic = ''Policy'', article_count = 3\<rparr>]
     ''All Languages'' ''All Subtopics'' ''Pie Chart'' ''Alphabetical'' =
   render argsort_stable [\<lparr>language_code = ''en'', subtopic = ''Policy'', article_count = 3\<rparr>]
     ''All Languages'' ''All Subtopics'' ''Percentage Stacked'' ''Alphabetical''"
proof -
  have s: "''Alphabetical'' \<noteq> ''Total Articles (Descending)'' \<and>
           ''Alphabetical'' \<noteq> ''Total Articles (Ascending)''"
    by simp
  have c: "''Pie Chart'' \<noteq> ''Stacked Bar'' \<and> ''Pie Chart'' \<noteq> ''Grouped Bar''"
    by simp
  note t = unrecognized_modes_fall_through [of "''Alphabetical''" argsort_stable
      "[\<lparr>language_code = ''en'', subtopic = ''Policy'', article_count = 3\<rparr>]"
      "''All Languages''" "''All Subtopics''" "''Pie Chart''"]
  note e1 = t [THEN conjunct1, THEN mp, OF s]
  note e2 = t [THEN conjunct2, THEN mp, OF c]
  show ?thesis
    by (intro conjI) (rule s [THEN conjunct1] s [THEN conjunct2] c [THEN conjunct1]
        c [THEN conjunct2] e1 e2)+
qed

section \<open>Languages without an entry in \<open>lang_map\<close> (C8)\<close>

text \<open>
  C8: a language code that has no entry in \<open>lang_map\<close> is shown as the raw code wherever the
  language is displayed. The select box (line 64) and the summary table (line 254) do so
  through \<open>lang_map.get(x, x)\<close>; the chart does not: line 161 maps the column through the
  dictionary itself, and the language name of the row, the x value of its bar, is NaN. For a
  table whose only language is \<open>ja\<close>:
\<close>

theorem chart_language_name_missing:
  "language_options [\<lparr>language_code = ''ja'', subtopic = ''Policy'', article_count = 5\<rparr>] =
     [''All Languages'', ''ja (ja)''] \<and>
   render argsort_stable [\<lparr>language_code = ''ja'', subtopic = ''Policy'', article_count = 5\<rparr>]
     ''All Languages'' ''All Subtopics'' ''Stacked Bar'' ''Total Articles (Descending)'' =
   Inr \<lparr>df_wide = \<lparr>index = [Some ''ja''], columns = [''Policy''], cells = [[5]]\<rparr>,
        chart = StackedBar
           [\<lparr>language_code = Some ''ja'', subtopic = ''Policy'',
               article_count = 5, language_name = None\<rparr>],
        total_articles = 5, num_languages = 1, num_subtopics = 1,
        summary_df =
          \<lparr>index = [''ja (ja)''], columns = [''Policy'', ''Total''],
             cells = [[5, 5]]\<rparr>\<rparr>"
  by code_simp

section \<open>Empty selections (C9)\<close>

text \<open>
  C9, as stated: with an empty selected set the pipeline stops at an empty-result signal
  and presents no table with zero columns. The script has no such short cut: the pivot of
  line 146 runs before the test of line 154, and the summary table of line 247 is built
  and shown after the notice. With no subtopic selected the pivot has no row and no column,
  and the summary table shown has no subtopic column, only \<open>Total\<close>.
\<close>

theorem empty_subtopics_page:
  "run_page argsort_stable
     [\<lparr>language_code = ''en'', subtopic = ''Policy'', article_count = 3\<rparr>]
     [''en''] [] ''Stacked Bar'' ''Default Order'' =
   Inr \<lparr>df_wide = \<lparr>index = [], columns = [], cells = []\<rparr>,
        chart = Warning ''Please select at least one subtopic to display.'',
        total_articles = 0, num_languages = 1, num_subtopics = 0,
        summary_df = \<lparr>index = [], columns = [''Total''], cells = []\<rparr>\<rparr>"
  by code_simp

text \<open>
  C9, amended: when the selected languages or the selected subtopics are empty, the run
  raises no exception and shows a notice in place of the chart (the notice about languages
  when both are empty); the pivot is still computed, with no row and no column, and the
  summary table is still shown, with no row and the single column \<open>Total\<close>.
\<close>

theorem empty_selection_notice:
  assumes "langs = [] \<or> subs = []"
  shows "run_page argsort df langs subs chart_type sort_option =
     Inr \<lparr>df_wide = \<lparr>index = [], columns = [], cells = []\<rparr>,
          chart = Warning (if langs = [] then ''Please select at least one language to display.''
                           else ''Please select at least one subtopic to display.''),
          total_articles = 0, num_languages = length langs, num_subtopics = length subs,
          summary_df = \<lparr>index = [], columns = [''Total''], cells = []\<rparr>\<rparr>"
proof -
  have F: "filter_rows df langs subs = []"
    using assms by (rule filter_rows_empty)
  have R: "df_filtered argsort df langs subs sort_option = []"
    by (simp add: df_filtered_def F Let_def Categorical_def sort_values_language_def)
  have P: "pivot cats [] = Inr \<lparr>index = [], columns = [], cells = []\<rparr>" for cats
    by (simp add: pivot_def pivot_index_def)
  have S: "make_summary cats [] = \<lparr>index = [], columns = [''Total''], cells = []\<rparr>" for cats
    by (simp add: make_summary_def pivot_table_def assign_column_def Let_def)
  have C: "make_chart langs subs chart_type [] =
      Warning (if langs = [] then ''Please select at least one language to display.''
               else ''Please select at least one subtopic to display.'')"
    using assms by (auto simp: make_chart_def)
  show ?thesis
    by (simp add: run_page_def Let_def R P S C fillna_def int64_def)
qed

theorem empty_selection_notice_witness:
  "([''en''] = [] \<or> ([]::string list) = []) \<and>
   run_page argsort_stable [\<lparr>language_code = ''en'', subtopic = ''Policy'', article_count = 3\<rparr>]
     [''en''] [] ''Grouped Bar'' ''Total Articles (Ascending)'' =
     Inr \<lparr>df_wide = \<lparr>index = [], columns = [], cells = []\<rparr>,
          chart = Warning ''Please select at least one subtopic to display.'',
          total_articles = 0, num_languages = 1, num_subtopics = 0,
          summary_df = \<lparr>index = [], columns = [''Total''], cells = []\<rparr>\<rparr>"
  using empty_selection_notice [of "[''en'']" "[]" argsort_stable
      "[\<lparr>language_code = ''en'', subtopic = ''Policy'', article_count = 3\<rparr>]"
      "''Grouped Bar''" "''Total Articles (Ascending)''"]
  by simp

section \<open>What the select boxes can produce (C10)\<close>

text \<open>
  C10, as stated: for every loaded table the selected languages and subtopics are not
  empty, so the notices of lines 154-157 cannot be reached. For a table without rows the
  only option is the sentinel, which resolves to the empty list of languages of the table,
  and the run shows the notice.
\<close>

theorem empty_table_reaches_notice:
  "language_options [] = [''All Languages''] \<and>
  selected_languages [] ''All Languages'' = Inr [] \<and>
  render argsort_stable [] ''All Languages'' ''All Subtopics'' ''Stacked Bar'' ''Default Order'' =
  Inr \<lparr>df_wide = \<lparr>index = [], columns = [], cells = []\<rparr>,
        chart = Warning ''Please select at least one language to display.'',
        total_articles = 0, num_languages = 0, num_subtopics = 0,
        summary_df = \<lparr>index = [], columns = [''Total''], cells = []\<rparr>\<rparr>"
  by code_simp

text \<open>
  C10, amended: for every loaded table with at least one row and every option of the two
  select boxes, resolving the selection raises no exception and yields a non-empty list of
  languages and a non-empty list of subtopics, each the full list of distinct values of the
  table or a single value; no run on such a table shows a notice in place of the chart.
\<close>

theorem selector_sets_nonempty:
  assumes "df \<noteq> []"
    and "selected_language \<in> set (language_options df)"
    and "selected_subtopic \<in> set (subtopic_options df)"
  shows "\<exists>langs. selected_languages df selected_language = Inr langs \<and> langs \<noteq> [] \<and>
      (langs = available_languages df \<or> (\<exists>c. langs = [c])) \<and>
      selected_subtopics df selected_subtopic \<noteq> [] \<and>
      (selected_subtopics df selected_subtopic = available_subtopics df \<or>
       (\<exists>s. selected_subtopics df selected_subtopic = [s])) \<and>
      (\<forall>chart_type sort_option p m.
         render argsort df selected_language selected_subtopic chart_type sort_option = Inr p \<longrightarrow>
         chart p \<noteq> Warning m)"
proof -
  have al: "available_languages df \<noteq> []" and as: "available_subtopics df \<noteq> []"
    using assms(1) by (simp_all add: available_languages_def available_subtopics_def)
  obtain langs where L: "selected_languages df selected_language = Inr langs"
    and L1: "langs \<noteq> []" and L2: "langs = available_languages df \<or> (\<exists>c. langs = [c])"
  proof (cases "selected_language = ''All Languages''")
    case True
    then have "selected_languages df selected_language = Inr (available_languages df)"
      by (simp add: selected_languages_def)
    with al that show ?thesis by blast
  next
    case False
    with assms(2) obtain x where "selected_language = language_label x"
      by (auto simp: language_options_def)
    then obtain c where "selected_languages df selected_language = Inr [c]"
      using selected_languages_label by blast
    with that show ?thesis by blast
  qed
  let ?subs = "selected_subtopics df selected_subtopic"
  have S1: "?subs \<noteq> []" and S2: "?subs = available_subtopics df \<or> (\<exists>s. ?subs = [s])"
    using as by (auto simp: selected_subtopics_def)
  have W: "chart p \<noteq> Warning m"
    if "render argsort df selected_language selected_subtopic ct so = Inr p" for ct so p m
  proof -
    from render_chart [OF that] L
    have "chart p = make_chart langs ?subs ct (df_filtered argsort df langs ?subs so)"
      by auto
    with L1 S1 show ?thesis by (simp add: make_chart_Warning)
  qed
  from L L1 L2 S1 S2 W show ?thesis by blast
qed

theorem selector_sets_nonempty_witness:
  "[\<lparr>language_code = ''en'', subtopic = ''Policy'', article_count = 3\<rparr>] \<noteq> [] \<and>
   ''English (en)'' \<in> set (language_options
      [\<lparr>language_code = ''en'', subtopic = ''Policy'', article_count = 3\<rparr>]) \<and>
   ''Policy'' \<in> set (subtopic_options
      [\<lparr>language_code = ''en'', subtopic = ''Policy'', article_count = 3\<rparr>]) \<and>
   selected_languages [\<lparr>language_code = ''en'', subtopic = ''Policy'', article_count = 3\<rparr>]
      ''English (en)'' = Inr [''en''] \<and>
   selected_subtopics [\<lparr>language_code = ''en'', subtopic = ''Policy'', article_count = 3\<rparr>]
      ''Policy'' = [''Policy''] \<and>
   render argsort_stable [\<lparr>language_code = ''en'', subtopic = ''Policy'', article_count = 3\<rparr>]
      ''English (en)'' ''Policy'' ''Stacked Bar'' ''Default Order'' =
   Inr \<lparr>df_wide = \<lparr>index = [Some ''en''], columns = [''Policy''], cells = [[3]]\<rparr>,
        chart = StackedBar
           [\<lparr>language_code = Some ''en'', subtopic = ''Policy'',
               article_count = 3, language_name = Some ''English''\<rparr>],
        total_articles = 3, num_languages = 1, num_subtopics = 1,
        summary_df =
          \<lparr>index = [''English (en)''], columns = [''Policy'', ''Total''],
             cells = [[3, 3]]\<rparr>\<rparr> \<and>
   StackedBar
           [\<lparr>language_code = Some ''en'', subtopic = ''Policy'',
               article_count = 3, language_name = Some ''English''\<rparr>] \<noteq>
   Warning ''Please select at least one language to display.''"
  (is "?df \<noteq> [] \<and> ?a \<and> ?b \<and> ?c \<and> ?d \<and> ?e \<and> ?f")
proof -
  have h1: "?df \<noteq> []" by simp
  have h2: ?a by code_simp
  have h3: ?b by code_simp
  have c: ?c by code_simp
  have d: ?d by code_simp
  have e: ?e by code_simp
  from selector_sets_nonempty [OF h1 h2 h3, of argsort_stable] e
  have "chart \<lparr>df_wide = \<lparr>index = [Some ''en''], columns = [''Policy''], cells = [[3]]\<rparr>,
        chart = StackedBar
           [\<lparr>language_code = Some ''en'', subtopic = ''Policy'',
               article_count = 3, language_name = Some ''English''\<rparr>],
        total_articles = 3, num_languages = 1, num_subtopics = 1,
        summary_df =
          \<lparr>index = [''English (en)''], columns = [''Policy'', ''Total''],
             cells = [[3, 3]]\<rparr>\<rparr> \<noteq> Warning ''Please select at least one language to display.''"
    by blast
  then have f: ?f by simp
  show ?thesis
    by (intro conjI) (rule h1 h2 h3 c d e f)+
qed

section \<open>Default order of the languages (C3)\<close>

text \<open>
  C3, as stated: in the default order a selected language outside the fixed list of ten is
  appended after the listed ones, so that no selected language is dropped. The categories
  of line 139 are the listed languages only; a language outside the list has no category,
  and \<open>pd.Categorical\<close> replaces it by NaN. For a table with \<open>ja\<close> and \<open>en\<close> the only
  category is \<open>en\<close>, and the row of \<open>ja\<close> carries no language.
\<close>

theorem default_order_drops_language:
  "categories argsort_stable ''Default Order''
     (filter_rows
        [\<lparr>language_code = ''ja'', subtopic = ''Policy'', article_count = 2\<rparr>,
         \<lparr>language_code = ''en'', subtopic = ''Policy'', article_count = 1\<rparr>]
        [''ja'', ''en''] [''Policy''])
     [''ja'', ''en''] = [''en''] \<and>
   df_filtered argsort_stable
        [\<lparr>language_code = ''ja'', subtopic = ''Policy'', article_count = 2\<rparr>,
         \<lparr>language_code = ''en'', subtopic = ''Policy'', article_count = 1\<rparr>]
        [''ja'', ''en''] [''Policy''] ''Default Order'' =
     [\<lparr>language_code = Some ''en'', subtopic = ''Policy'', article_count = 1\<rparr>,
      \<lparr>language_code = None, subtopic = ''Policy'', article_count = 2\<rparr>]"
  by code_simp

text \<open>
  C3, amended: in the default order (any sort option but the two total orders) the
  language order is the fixed sequence en, ar, fr, es, de, pt, zh, ru, uk, it restricted to
  the selected languages, and the languages of the rows of \<open>df_filtered\<close> appear in that
  order; the rows of the selected languages outside the fixed sequence carry no language
  (NaN) and come last.
\<close>

theorem default_order_canonical:
  assumes "sort_option \<noteq> ''Total Articles (Descending)''"
    and "sort_option \<noteq> ''Total Articles (Ascending)''"
  shows "categories argsort sort_option (filter_rows df langs subs) langs =
      filter (\<lambda>l. l \<in> set langs) top10_langs \<and>
    unique (map language_code (df_filtered argsort df langs subs sort_option)) =
      map Some (filter (\<lambda>l. l \<in> language_code ` set (filter_rows df langs subs)) top10_langs) @
      (if \<exists>r\<in>set (filter_rows df langs subs). language_code r \<notin> set top10_langs
       then [None] else [])"
proof -
  let ?F = "filter_rows df langs subs"
  have c: "categories argsort sort_option ?F langs = filter (\<lambda>l. l \<in> set langs) top10_langs"
    using assms by (simp add: categories_def)
  have d: "distinct (categories argsort sort_option ?F langs)"
    by (simp add: c distinct_top10)
  have a: "filter (\<lambda>l. l \<in> language_code ` set ?F) (filter (\<lambda>l. l \<in> set langs) top10_langs) =
      filter (\<lambda>l. l \<in> language_code ` set ?F) top10_langs"
    by (auto simp: filter_rows_language intro!: filter_cong)
  have b: "(\<exists>r\<in>set ?F. language_code r \<notin> set (filter (\<lambda>l. l \<in> set langs) top10_langs)) \<longleftrightarrow>
      (\<exists>r\<in>set ?F. language_code r \<notin> set top10_langs)"
    by (auto simp: filter_rows_language)
  from unique_keys_df_filtered [OF d]
  have "unique (map language_code (df_filtered argsort df langs subs sort_option)) =
      map Some (filter (\<lambda>l. l \<in> language_code ` set ?F) top10_langs) @
      (if \<exists>r\<in>set ?F. language_code r \<notin> set top10_langs then [None] else [])"
    by (simp only: c a b)
  with c show ?thesis by simp
qed

theorem default_order_canonical_witness:
  "''Default Order'' \<noteq> ''Total Articles (Descending)'' \<and>
   ''Default Order'' \<noteq> ''Total Articles (Ascending)'' \<and>
   categories argsort_stable ''Default Order''
     (filter_rows
        [\<lparr>language_code = ''zh'', subtopic = ''Policy'', article_count = 30\<rparr>,
         \<lparr>language_code = ''de'', subtopic = ''Policy'', article_count = 120\<rparr>,
         \<lparr>language_code = ''en'', subtopic = ''Policy'', article_count = 50\<rparr>]
        [''zh'', ''de'', ''en''] [''Policy''])
     [''zh'', ''de'', ''en''] = [''en'', ''de'', ''zh''] \<and>
   unique (map language_code (df_filtered argsort_stable
        [\<lparr>language_code = ''zh'', subtopic = ''Policy'', article_count = 30\<rparr>,
         \<lparr>language_code = ''de'', subtopic = ''Policy'', article_count = 120\<rparr>,
         \<lparr>language_code = ''en'', subtopic = ''Policy'', article_count = 50\<rparr>]
        [''zh'', ''de'', ''en''] [''Policy''] ''Default Order'')) =
     [Some ''en'', Some ''de'', Some ''zh'']"
  (is "?h1 \<and> ?h2 \<and> categories argsort_stable ?so (filter_rows ?df ?langs ?subs) ?langs = ?c \<and> ?u = ?k")
proof -
  have h1: ?h1 and h2: ?h2 by simp_all
  note t = default_order_canonical [OF h1 h2, of argsort_stable ?df ?langs ?subs]
  have e1: "filter (\<lambda>l. l \<in> set ?langs) top10_langs = ?c"
    by code_simp
  have e2: "map Some (filter (\<lambda>l. l \<in> language_code ` set (filter_rows ?df ?langs ?subs)) top10_langs) @
      (if \<exists>r\<in>set (filter_rows ?df ?langs ?subs). language_code r \<notin> set top10_langs
       then [None] else []) = ?k"
    by code_simp
  have c: "categories argsort_stable ?so (filter_rows ?df ?langs ?subs) ?langs = ?c"
    using t [THEN conjunct1] e1 by (rule trans)
  have u: "?u = ?k"
    using t [THEN conjunct2] e2 by (rule trans)
  show ?thesis
    by (intro conjI) (rule h1 h2 c u)+
qed

section \<open>Percentages of a language without articles (C2)\<close>

text \<open>
  C2, as stated: in the percentage chart the rows of a language whose total is zero get the
  percentage 0. Line 201 divides by the total without a test, and the float64 division of
  zero by zero is NaN: both rows of \<open>es\<close> below carry NaN, not 0.
\<close>

theorem zero_total_percentage_render:
  "render argsort_stable
     [\<lparr>language_code = ''es'', subtopic = ''Policy'', article_count = 0\<rparr>,
      \<lparr>language_code = ''es'', subtopic = ''Science'', article_count = 0\<rparr>]
     ''All Languages'' ''All Subtopics'' ''Percentage Stacked'' ''Default Order'' =
   Inr \<lparr>df_wide = \<lparr>index = [Some ''es''], columns = [''Policy'', ''Science''],
                    cells = [[0, 0]]\<rparr>,
        chart = PercentStacked
           [\<lparr>language_code = Some ''es'', subtopic = ''Policy'',
               article_count = 0, language_name = Some ''Spanish'', percentage = NaN\<rparr>,
            \<lparr>language_code = Some ''es'', subtopic = ''Science'',
               article_count = 0, language_name = Some ''Spanish'', percentage = NaN\<rparr>],
        total_articles = 0, num_languages = 1, num_subtopics = 2,
        summary_df =
          \<lparr>index = [''Spanish (es)''], columns = [''Policy'', ''Science'', ''Total''],
             cells = [[0, 0, 0]]\<rparr>\<rparr>"
  by code_simp

text \<open>
  C2, amended: when a run shows the percentage chart, the division by a total of zero has
  raised no exception, and it has not given the percentage 0 either. A row of the chart that
  carries a language whose int64 total over the rows of the chart is zero has the percentage
  NaN when its count is zero, and an infinity with the sign of its count otherwise. A row
  that carries no language (in the default order, the rows of the languages outside the
  fixed list) has the percentage NaN, whatever its count and the total of its language.
\<close>

theorem zero_total_percentage:
  assumes "render argsort df selected_language selected_subtopic chart_type sort_option = Inr p"
    and "chart p = PercentStacked prs"
    and "r \<in> set prs"
  shows "(language_code r = None \<longrightarrow> percentage r = NaN) \<and>
    (\<forall>l. language_code r = Some l \<and>
       int64 (sum_list (map article_count (filter (\<lambda>x. language_code x = Some l) prs))) = 0 \<longrightarrow>
       percentage r =
         (if article_count r = 0 then NaN else if 0 < article_count r then PosInf else NegInf))"
proof -
  obtain ps where ps: "prs = with_percentage ps"
    using render_PercentStacked [OF assms(1,2)] by blast
  have pr: "percentage r =
      round1 (fmul (fdiv (article_count r) (transform_sum ps (language_code r))) 100)"
    using percentage_row [of r ps] assms(3) ps by simp
  have a: "percentage r = NaN" if "language_code r = None"
    using that by (simp add: pr transform_sum_def fdiv_def fmul_def round1_def)
  have b: "percentage r =
      (if article_count r = 0 then NaN else if 0 < article_count r then PosInf else NegInf)"
    if l: "language_code r = Some l"
      and z: "int64 (sum_list (map article_count (filter (\<lambda>x. language_code x = Some l) prs))) = 0"
    for l
  proof -
    have "int64 (sum_list (map article_count (filter (\<lambda>x. language_code x = Some l) ps))) = 0"
      using z by (simp only: ps counts_with_percentage)
    then have t: "transform_sum ps (Some l) = Some 0"
      by (simp add: transform_sum_def)
    show ?thesis
      by (simp add: pr l t fdiv_def fmul_def round1_def)
  qed
  from a b show ?thesis by blast
qed

theorem zero_total_percentage_witness:
  "render argsort_stable
     [\<lparr>language_code = ''es'', subtopic = ''Policy'', article_count = 0\<rparr>,
      \<lparr>language_code = ''ja'', subtopic = ''Policy'', article_count = 4\<rparr>]
     ''All Languages'' ''All Subtopics'' ''Percentage Stacked'' ''Default Order'' =
   Inr \<lparr>df_wide = \<lparr>index = [None, Some ''es''], columns = [''Policy''],
                    cells = [[4], [0]]\<rparr>,
        chart = PercentStacked
           [\<lparr>language_code = Some ''es'', subtopic = ''Policy'',
               article_count = 0, language_name = Some ''Spanish'', percentage = NaN\<rparr>,
            \<lparr>language_code = None, subtopic = ''Policy'',
               article_count = 4, language_name = None, percentage = NaN\<rparr>],
        total_articles = 4, num_languages = 2, num_subtopics = 1,
        summary_df =
          \<lparr>index = [''Spanish (es)''], columns = [''Policy'', ''Total''],
             cells = [[0, 0]]\<rparr>\<rparr> \<and>
   int64 (sum_list (map article_count (filter (\<lambda>x. language_code x = Some ''es'')
           [\<lparr>language_code = Some ''es'', subtopic = ''Policy'',
               article_count = 0, language_name = Some ''Spanish'', percentage = NaN\<rparr>,
            \<lparr>language_code = None, subtopic = ''Policy'',
               article_count = 4, language_name = None, percentage = NaN\<rparr>]))) = 0 \<and>
   percentage \<lparr>language_code = Some ''es'', subtopic = ''Policy'',
               article_count = 0, language_name = Some ''Spanish'', percentage = NaN\<rparr> = NaN \<and>
   percentage \<lparr>language_code = None :: string option, subtopic = ''Policy'',
               article_count = 4, language_name = None, percentage = NaN\<rparr> = NaN"
  (is "render argsort_stable ?df ?sl ?ss ?ct ?so = Inr ?p \<and> ?s \<and> percentage ?r = NaN \<and>
       percentage ?n = NaN")
proof -
  have a: "render argsort_stable ?df ?sl ?ss ?ct ?so = Inr ?p" by code_simp
  have b: "chart ?p = PercentStacked [?r, ?n]" by simp
  have c: "?r \<in> set [?r, ?n]" and d: "?n \<in> set [?r, ?n]" by simp_all
  have e: ?s by (simp add: int64_def)
  have l: "language_code ?r = Some ''es''" and m: "language_code ?n = None" by simp_all
  note t = zero_total_percentage [OF a b c, THEN conjunct2, THEN spec, THEN mp, OF conjI, OF l e]
  note v = zero_total_percentage [OF a b d, THEN conjunct1, THEN mp, OF m]
  have f: "percentage ?r = NaN" using t by simp
  show ?thesis
    by (intro conjI) (rule a e f v)+
qed

section \<open>Sum of the rounded percentages (C7)\<close>

text \<open>
  C7, as stated: for a language with a nonzero total the rounded percentages add up to 100
  within 0.1. Each percentage is rounded on its own (line 201), so the rounding errors add
  up: with the five counts 2004, 2004, 2004, 2004 and 1984 of total 10000 the rounded values
  are four times 20.0 and once the float64 next to 19.8, which add up to 99.8.
\<close>

theorem percentages_sum_off_target:
  "map percentage (with_percentage (df_plot (df_filtered argsort_stable
     [\<lparr>language_code = ''es'', subtopic = ''Policy'', article_count = 2004\<rparr>,
      \<lparr>language_code = ''es'', subtopic = ''Adaptation'', article_count = 2004\<rparr>,
      \<lparr>language_code = ''es'', subtopic = ''Environment'', article_count = 2004\<rparr>,
      \<lparr>language_code = ''es'', subtopic = ''Science'', article_count = 2004\<rparr>,
      \<lparr>language_code = ''es'', subtopic = ''Sustainability'', article_count = 1984\<rparr>]
     [''es''] [''Policy'', ''Adaptation'', ''Environment'', ''Science'', ''Sustainability'']
     ''Default Order''))) =
   [Finite 20, Finite 20, Finite 20, Finite 20, Finite (fl (198 / 10))] \<and>
   \<not> \<bar>20 + 20 + 20 + 20 + fl (198 / 10) - 100\<bar> \<le> 1 / 10"
  by code_simp

text \<open>
  C7, amended: when a run shows the percentage chart, for a language that has a category
  (its rows carry the language), whose counts are not negative and whose total is at least 1 and at most
  \<open>2^53\<close>, every rounded percentage is a number, and the rounded percentages of its \<open>n\<close>
  rows add up to 100 within \<open>n\<close> times \<open>0.05 + 10^-12\<close> (the rounding to one decimal and the
  roundings of float64).
\<close>

theorem percentages_sum_bound:
  assumes "render argsort df selected_language selected_subtopic chart_type sort_option = Inr p"
    and "chart p = PercentStacked prs"
    and "\<forall>r\<in>set prs. language_code r = Some l \<longrightarrow> 0 \<le> article_count r"
    and "0 < sum_list (map article_count (filter (\<lambda>x. language_code x = Some l) prs))"
    and "sum_list (map article_count (filter (\<lambda>x. language_code x = Some l) prs)) \<le> 2 ^ 53"
  shows "\<exists>qs. map percentage (filter (\<lambda>x. language_code x = Some l) prs) = map Finite qs \<and>
     \<bar>sum_list qs - 100\<bar> \<le> of_nat (length qs) * (1 / 20 + 1 / 10 ^ 12)"
proof -
  obtain ps where ps: "prs = with_percentage ps"
    using render_PercentStacked [OF assms(1,2)] by blast
  let ?rs = "filter (\<lambda>x. language_code x = Some l) ps"
  define T where "T = sum_list (map article_count ?rs)"
  let ?e = "\<lambda>r. of_int (article_count r) / of_int T * 100 :: rat"
  let ?q = "\<lambda>r. fl (of_int (rint (fl (fl (fl (of_int (article_count r) / of_int T) * 100) * 10))) / 10)"
  have T: "0 < T" "T \<le> 2 ^ 53"
    using assms(4,5) by (simp_all only: T_def ps counts_with_percentage)
  have nn: "0 \<le> article_count r" if "r \<in> set ?rs" for r
  proof -
    from that have "r \<in> set ps" "language_code r = Some l" by simp_all
    then obtain r' where "r' \<in> set prs" "language_code r' = Some l"
      "article_count r' = article_count r"
      by (force simp: ps with_percentage_def)
    with assms(3) show ?thesis by force
  qed
  have le: "article_count r \<le> T" if "r \<in> set ?rs" for r
    unfolding T_def using nn that by (rule nonneg_le_sum_list)
  have t: "transform_sum ps (Some l) = Some T"
    using T by (simp add: transform_sum_def T_def [symmetric] int64_id)
  have fT: "float_of_int T = of_int T"
    using T by (simp add: float_of_int_exact)
  have pq: "round1 (fmul (fdiv (article_count r) (Some T)) 100) = Finite (?q r)"
    if "r \<in> set ?rs" for r
  proof -
    have "article_count r \<le> 2 ^ 53" using le [OF that] T(2) by simp
    with nn [OF that] have "float_of_int (article_count r) = of_int (article_count r)"
      by (simp add: float_of_int_exact)
    with T(1) fT show ?thesis
      by (simp add: fdiv_def fmul_def round1_def)
  qed
  have "map percentage (filter (\<lambda>x. language_code x = Some l) prs) =
      map (\<lambda>r. round1 (fmul (fdiv (article_count r) (Some T)) 100)) ?rs"
    by (simp only: ps percentage_with_percentage t)
  also have "\<dots> = map (\<lambda>r. Finite (?q r)) ?rs"
    using pq by (intro map_cong) simp_all
  also have "\<dots> = map Finite (map ?q ?rs)"
    by simp
  finally have m: "map percentage (filter (\<lambda>x. language_code x = Some l) prs) =
      map Finite (map ?q ?rs)" .
  have c: "\<bar>?q r - ?e r\<bar> \<le> 1 / 20 + 1 / 10 ^ 12" if "r \<in> set ?rs" for r
  proof (rule round_chain_close)
    show "0 \<le> (of_int (article_count r) / of_int T :: rat)"
      using nn [OF that] T(1) by simp
    show "(of_int (article_count r) / of_int T :: rat) \<le> 1"
      using le [OF that] T(1) by simp
  qed
  have "\<bar>sum_list (map ?q ?rs) - sum_list (map ?e ?rs)\<bar> \<le>
      of_nat (length ?rs) * (1 / 20 + 1 / 10 ^ 12)"
    using c by (rule abs_sum_list_diff)
  moreover have "sum_list (map ?e ?rs) = 100"
    using T(1) by (simp only: sum_list_shares T_def [symmetric]) simp
  ultimately have "\<bar>sum_list (map ?q ?rs) - 100\<bar> \<le>
      of_nat (length (map ?q ?rs)) * (1 / 20 + 1 / 10 ^ 12)"
    by simp
  with m show ?thesis by blast
qed

theorem percentages_sum_bound_witness:
  "render argsort_stable
     [\<lparr>language_code = ''es'', subtopic = ''Policy'', article_count = 1\<rparr>,
      \<lparr>language_code = ''es'', subtopic = ''Science'', article_count = 2\<rparr>]
     ''All Languages'' ''All Subtopics'' ''Percentage Stacked'' ''Default Order'' =
   Inr \<lparr>df_wide = \<lparr>index = [Some ''es''], columns = [''Policy'', ''Science''],
                    cells = [[1, 2]]\<rparr>,
        chart = PercentStacked
           [\<lparr>language_code = Some ''es'', subtopic = ''Policy'', article_count = 1,
              language_name = Some ''Spanish'', percentage = Finite (fl (333 / 10))\<rparr>,
            \<lparr>language_code = Some ''es'', subtopic = ''Science'', article_count = 2,
              language_name = Some ''Spanish'', percentage = Finite (fl (667 / 10))\<rparr>],
        total_articles = 3, num_languages = 1, num_subtopics = 2,
        summary_df =
          \<lparr>index = [''Spanish (es)''], columns = [''Policy'', ''Science'', ''Total''],
             cells = [[1, 2, 3]]\<rparr>\<rparr> \<and>
   0 < sum_list (map article_count (filter (\<lambda>x. language_code x = Some ''es'')
           [\<lparr>language_code = Some ''es'', subtopic = ''Policy'', article_count = 1,
              language_name = Some ''Spanish'', percentage = Finite (fl (333 / 10))\<rparr>,
            \<lparr>language_code = Some ''es'', subtopic = ''Science'', article_count = 2,
              language_name = Some ''Spanish'', percentage = Finite (fl (667 / 10))\<rparr>])) \<and>
   sum_list (map article_count (filter (\<lambda>x. language_code x = Some ''es'')
           [\<lparr>language_code = Some ''es'', subtopic = ''Policy'', article_count = 1,
              language_name = Some ''Spanish'', percentage = Finite (fl (333 / 10))\<rparr>,
            \<lparr>language_code = Some ''es'', subtopic = ''Science'', article_count = 2,
              language_name = Some ''Spanish'', percentage = Finite (fl (667 / 10))\<rparr>])) \<le> 2 ^ 53 \<and>
   (\<exists>qs. map percentage (filter (\<lambda>x. language_code x = Some ''es'')
           [\<lparr>language_code = Some ''es'', subtopic = ''Policy'', article_count = 1,
              language_name = Some ''Spanish'', percentage = Finite (fl (333 / 10))\<rparr>,
            \<lparr>language_code = Some ''es'', subtopic = ''Science'', article_count = 2,
              language_name = Some ''Spanish'', percentage = Finite (fl (667 / 10))\<rparr>]) =
        map Finite qs \<and>
      \<bar>sum_list qs - 100\<bar> \<le> of_nat (length qs) * (1 / 20 + 1 / 10 ^ 12))"
  (is "render argsort_stable ?df ?sl ?ss ?ct ?so = Inr ?p \<and> ?s \<and> ?b \<and> ?concl")
proof -
  have a: "render argsort_stable ?df ?sl ?ss ?ct ?so = Inr ?p" by code_simp
  have b: "chart ?p = PercentStacked
           [\<lparr>language_code = Some ''es'', subtopic = ''Policy'', article_count = 1,
              language_name = Some ''Spanish'', percentage = Finite (fl (333 / 10))\<rparr>,
            \<lparr>language_code = Some ''es'', subtopic = ''Science'', article_count = 2,
              language_name = Some ''Spanish'', percentage = Finite (fl (667 / 10))\<rparr>]"
    by simp
  have n: "\<forall>r\<in>set [\<lparr>language_code = Some ''es'', subtopic = ''Policy'', article_count = 1,
              language_name = Some ''Spanish'', percentage = Finite (fl (333 / 10))\<rparr>,
            \<lparr>language_code = Some ''es'', subtopic = ''Science'', article_count = 2,
              language_name = Some ''Spanish'', percentage = Finite (fl (667 / 10))\<rparr>].
         language_code r = Some ''es'' \<longrightarrow> 0 \<le> article_count r"
    by simp
  have c: ?s by simp
  have d: ?b by simp
  note t = percentages_sum_bound [OF a b n c d]
  show ?thesis
    by (intro conjI) (rule a c d t)+
qed


section \<open>Order of the languages by total (C5)\<close>

text \<open>
  C5, as stated: languages with equal totals appear in catalog order (en before ar). The
  totals come from \<open>groupby\<close>, which sorts the language codes, and the sort of the totals
  starts from that order: with 10 articles each and an argsort that leaves equal values
  where they are, \<open>ar\<close> comes before \<open>en\<close>. The totals are int64 sums, too: the total of
  \<open>2^63 - 1\<close> and 1 wraps around to \<open>-2^63\<close>, and in the descending order \<open>en\<close> with these
  two counts comes after \<open>de\<close> with 5 articles, whatever the argsort does with equal values.
\<close>

theorem equal_totals_order:
  "categories argsort_stable ''Total Articles (Ascending)''
     (filter_rows
        [\<lparr>language_code = ''en'', subtopic = ''Policy'', article_count = 10\<rparr>,
         \<lparr>language_code = ''ar'', subtopic = ''Policy'', article_count = 10\<rparr>]
        [''en'', ''ar''] [''Policy''])
     [''en'', ''ar''] = [''ar'', ''en''] \<and>
   categories argsort_stable ''Total Articles (Descending)''
     (filter_rows
        [\<lparr>language_code = ''en'', subtopic = ''Policy'', article_count = 9223372036854775807\<rparr>,
         \<lparr>language_code = ''en'', subtopic = ''Science'', article_count = 1\<rparr>,
         \<lparr>language_code = ''de'', subtopic = ''Policy'', article_count = 5\<rparr>]
        [''en'', ''de''] [''Policy'', ''Science''])
     [''en'', ''de''] = [''de'', ''en'']"
  by code_simp

text \<open>
  C5, amended: under the two total orders the categories are the distinct languages of the
  filtered rows, ordered by their int64 total over the filtered rows (never increasing, or
  never decreasing); the order of languages with equal totals is the one that the argsort
  of numpy gives to equal values, which the script does not fix. The languages of the rows
  of \<open>df_filtered\<close> appear in the order of the categories.
\<close>

theorem total_order_categories:
  assumes "is_argsort argsort"
    and "sort_option = ''Total Articles (Descending)'' \<or>
         sort_option = ''Total Articles (Ascending)''"
  shows "distinct (categories argsort sort_option (filter_rows df langs subs) langs) \<and>
    set (categories argsort sort_option (filter_rows df langs subs) langs) =
      language_code ` set (filter_rows df langs subs) \<and>
    sorted_wrt
      (\<lambda>a b. if sort_option = ''Total Articles (Descending)''
              then group_total (filter_rows df langs subs) b \<le> group_total (filter_rows df langs subs) a
              else group_total (filter_rows df langs subs) a \<le> group_total (filter_rows df langs subs) b)
      (categories argsort sort_option (filter_rows df langs subs) langs) \<and>
    unique (map language_code (df_filtered argsort df langs subs sort_option)) =
      map Some (categories argsort sort_option (filter_rows df langs subs) langs)"
  using categories_total_order [OF assms, of df langs subs]
    unique_keys_total [OF assms, of df langs subs]
  by (intro conjI) (erule conjunct1 conjunct2 [THEN conjunct1] conjunct2 [THEN conjunct2] | assumption)+

theorem total_order_categories_witness:
  "(''Total Articles (Descending)'' = ''Total Articles (Descending)'' \<or>
    ''Total Articles (Descending)'' = ''Total Articles (Ascending)'') \<and>
   categories argsort_stable ''Total Articles (Descending)''
     (filter_rows
        [\<lparr>language_code = ''en'', subtopic = ''Policy'', article_count = 50\<rparr>,
         \<lparr>language_code = ''de'', subtopic = ''Policy'', article_count = 120\<rparr>,
         \<lparr>language_code = ''zh'', subtopic = ''Policy'', article_count = 30\<rparr>,
         \<lparr>language_code = ''ar'', subtopic = ''Policy'', article_count = 70\<rparr>]
        [''en'', ''de'', ''zh'', ''ar''] [''Policy''])
     [''en'', ''de'', ''zh'', ''ar''] = [''de'', ''ar'', ''en'', ''zh''] \<and>
   unique (map language_code (df_filtered argsort_stable
        [\<lparr>language_code = ''en'', subtopic = ''Policy'', article_count = 50\<rparr>,
         \<lparr>language_code = ''de'', subtopic = ''Policy'', article_count = 120\<rparr>,
         \<lparr>language_code = ''zh'', subtopic = ''Policy'', article_count = 30\<rparr>,
         \<lparr>language_code = ''ar'', subtopic = ''Policy'', article_count = 70\<rparr>]
        [''en'', ''de'', ''zh'', ''ar''] [''Policy''] ''Total Articles (Descending)'')) =
     map Some [''de'', ''ar'', ''en'', ''zh'']"
  (is "?h \<and> categories argsort_stable ?so (filter_rows ?df ?langs ?subs) ?langs = ?c \<and> ?u = map Some ?c")
proof -
  have h: ?h by simp
  have c: "categories argsort_stable ?so (filter_rows ?df ?langs ?subs) ?langs = ?c"
    by code_simp
  note t = total_order_categories [OF argsort_stable_is_argsort h, of ?df ?langs ?subs]
  from t [THEN conjunct2, THEN conjunct2, THEN conjunct2]
  have u: "?u = map Some ?c" by (simp only: c)
  show ?thesis
    by (intro conjI) (rule h c u)+
qed


section \<open>Cells of the pivot and totals of the summary table (C6)\<close>

text \<open>
  C6, as stated: the pairs at the non-zero cells of the pivot are exactly the pairs of the
  filtered records. A record with the count 0 has its pair among the filtered records and a
  zero cell: \<open>en\<close>/\<open>Policy\<close> below.
\<close>

theorem zero_count_cell:
  "run_page argsort_stable
     [\<lparr>language_code = ''en'', subtopic = ''Policy'', article_count = 0\<rparr>,
      \<lparr>language_code = ''en'', subtopic = ''Science'', article_count = 7\<rparr>]
     [''en''] [''Policy'', ''Science''] ''Stacked Bar'' ''Default Order'' =
   Inr \<lparr>df_wide = \<lparr>index = [Some ''en''], columns = [''Policy'', ''Science''],
                    cells = [[0, 7]]\<rparr>,
        chart = StackedBar
           [\<lparr>language_code = Some ''en'', subtopic = ''Policy'',
               article_count = 0, language_name = Some ''English''\<rparr>,
            \<lparr>language_code = Some ''en'', subtopic = ''Science'',
               article_count = 7, language_name = Some ''English''\<rparr>],
        total_articles = 7, num_languages = 1, num_subtopics = 2,
        summary_df =
          \<lparr>index = [''English (en)''], columns = [''Policy'', ''Science'', ''Total''],
             cells = [[0, 7, 7]]\<rparr>\<rparr> \<and>
   loc \<lparr>index = [Some ''en''], columns = [''Policy'', ''Science''], cells = [[0, 7::rat]]\<rparr>
     (Some ''en'') ''Policy'' = Some 0"
  by code_simp

text \<open>
  C6, amended: when no count of the filtered records is negative, their sum is at most
  \<open>2^53\<close> (so that float64 holds every value exactly), the pivot succeeds and the run
  reaches a page, the pairs at the non-zero cells of the rows of \<open>df_wide\<close> that carry a
  language are exactly the pairs of the filtered records with a non-zero count whose
  language has a category (every language under the total orders, the ten listed ones in
  the default order); the cell of each such record holds its count, so every other cell of
  these rows is 0; and the summary table has one row for each of these rows of \<open>df_wide\<close>,
  in the same order, whose \<open>Total\<close> is the sum of that row.
\<close>

theorem wide_frame_cells_and_totals:
  assumes "run_page argsort df langs subs chart_type sort_option = Inr p"
    and "\<forall>r\<in>set (filter_rows df langs subs). 0 \<le> article_count r"
    and "sum_list (map article_count (filter_rows df langs subs)) \<le> 2 ^ 53"
  shows "{(l, s). \<exists>v. loc (df_wide p) (Some l) s = Some v \<and> v \<noteq> 0} =
      {(language_code r, subtopic r) | r. r \<in> set (filter_rows df langs subs) \<and>
         article_count r \<noteq> 0 \<and>
         language_code r \<in> set (categories argsort sort_option (filter_rows df langs subs) langs)} \<and>
    (\<forall>r\<in>set (filter_rows df langs subs).
       language_code r \<in> set (categories argsort sort_option (filter_rows df langs subs) langs) \<longrightarrow>
       loc (df_wide p) (Some (language_code r)) (subtopic r) = Some (of_int (article_count r))) \<and>
    zip (index (summary_df p)) (column (summary_df p) ''Total'') =
      [(language_label l, Some t).
         (Some l, t) \<leftarrow> zip (index (df_wide p)) (map sum_list (cells (df_wide p)))]"
proof -
  let ?F = "filter_rows df langs subs"
  let ?cats = "categories argsort sort_option ?F langs"
  let ?R = "df_filtered argsort df langs subs sort_option"
  let ?cols = "sort (remdups (map subtopic ?R))"
  let ?W = "df_wide p"
  from run_page_Inr [OF assms(1)] obtain w where w: "pivot ?cats ?R = Inr w"
    and dw: "?W = fillna 0 w" and sm: "summary_df p = make_summary ?cats ?R"
    by blast
  have D: "distinct (map (\<lambda>r. (language_code r, subtopic r)) ?R)"
    using w by (rule pivot_distinct)
  have R: "r' \<in> set ?R \<longleftrightarrow>
      (\<exists>r\<in>set ?F. language_code r' =
          (if language_code r \<in> set ?cats then Some (language_code r) else None) \<and>
        subtopic r' = subtopic r \<and> article_count r' = article_count r)" for r'
    by (simp only: set_df_filtered in_Categorical)
  have N: "\<forall>r\<in>set ?R. 0 \<le> article_count r"
  proof
    fix r'
    assume "r' \<in> set ?R"
    then obtain r where "r \<in> set ?F" "article_count r' = article_count r"
      unfolding R by blast
    with assms(2) show "0 \<le> article_count r'" by simp
  qed
  have S: "sum_list (map article_count ?R) \<le> 2 ^ 53"
    using assms(3) by (simp only: counts_df_filtered)
  have b: "0 \<le> article_count r \<and> article_count r \<le> 2 ^ 53" if "r \<in> set ?R" for r
  proof -
    have "article_count r \<le> sum_list (map article_count ?R)"
      using N that by (intro nonneg_le_sum_list) simp_all
    with N S that show ?thesis by simp
  qed
  have W: "?W = \<lparr>index = pivot_index ?cats ?R, columns = ?cols,
      cells = map (\<lambda>k. map (\<lambda>s. fill 0 (pivot_cell of_int ?R k s)) ?cols) (pivot_index ?cats ?R)\<rparr>"
    using fillna_pivot [OF w b] dw by simp
  have L: "loc ?W k s =
      (if k \<in> set (pivot_index ?cats ?R) \<and> s \<in> set ?cols
       then Some (fill 0 (pivot_cell of_int ?R k s)) else None)" for k s
    by (simp only: W loc_grid)
  have cell: "loc ?W (Some (language_code r)) (subtopic r) = Some (of_int (article_count r))"
    if r: "r \<in> set ?F" and c: "language_code r \<in> set ?cats" for r
  proof -
    let ?r' = "\<lparr>language_code = Some (language_code r), subtopic = subtopic r,
        article_count = article_count r\<rparr>"
    have r': "?r' \<in> set ?R"
      unfolding R using r c by (intro bexI [of _ r]) simp_all
    then have "Some (language_code r) \<in> set (pivot_index ?cats ?R)"
      using c by (force simp: pivot_index_Some)
    moreover have "subtopic r \<in> set ?cols"
      using r' by force
    moreover have "pivot_cell of_int ?R (language_code ?r') (subtopic ?r') = Some (of_int (article_count ?r'))"
      using D r' by (rule pivot_cell_row)
    ultimately show ?thesis
      by (simp add: L fill_def)
  qed
  have sub: "\<exists>r. l = language_code r \<and> s = subtopic r \<and> r \<in> set ?F \<and> article_count r \<noteq> 0 \<and>
      language_code r \<in> set ?cats"
    if "loc ?W (Some l) s = Some v" "v \<noteq> 0" for l s v
  proof -
    from that have v: "fill 0 (pivot_cell of_int ?R (Some l) s) = v"
      by (simp add: L split: if_splits)
    with that(2) have "pivot_cell of_int ?R (Some l) s = Some v"
      by (cases "pivot_cell of_int ?R (Some l) s") (simp_all add: fill_def)
    then obtain r' where r': "r' \<in> set ?R" "language_code r' = Some l" "subtopic r' = s"
      "v = of_int (article_count r')"
      using pivot_cell_Some by blast
    from r'(1) obtain r where r: "r \<in> set ?F"
      "language_code r' = (if language_code r \<in> set ?cats then Some (language_code r) else None)"
      "subtopic r' = subtopic r" "article_count r' = article_count r"
      unfolding R by blast
    from r(2) r'(2) have "language_code r \<in> set ?cats" "l = language_code r"
      by (simp_all split: if_splits)
    moreover from r'(4) that(2) r(4) have "article_count r \<noteq> 0" by auto
    ultimately show ?thesis using r(1,3) r'(3) by auto
  qed
  have one: "{(l, s). \<exists>v. loc ?W (Some l) s = Some v \<and> v \<noteq> 0} =
      {(language_code r, subtopic r) | r. r \<in> set ?F \<and> article_count r \<noteq> 0 \<and>
         language_code r \<in> set ?cats}"
  proof (intro set_eqI iffI)
    fix x
    assume "x \<in> {(l, s). \<exists>v. loc ?W (Some l) s = Some v \<and> v \<noteq> 0}"
    then obtain l s v where "x = (l, s)" "loc ?W (Some l) s = Some v" "v \<noteq> 0" by auto
    with sub [of l s v] show "x \<in> {(language_code r, subtopic r) | r. r \<in> set ?F \<and>
        article_count r \<noteq> 0 \<and> language_code r \<in> set ?cats}"
      by auto
  next
    fix x
    assume "x \<in> {(language_code r, subtopic r) | r. r \<in> set ?F \<and>
        article_count r \<noteq> 0 \<and> language_code r \<in> set ?cats}"
    then obtain r where "x = (language_code r, subtopic r)" "r \<in> set ?F"
      "article_count r \<noteq> 0" "language_code r \<in> set ?cats" by auto
    with cell [of r] show "x \<in> {(l, s). \<exists>v. loc ?W (Some l) s = Some v \<and> v \<noteq> 0}"
      by auto
  qed
  have iw: "index ?W = pivot_index ?cats ?R"
    and cw: "cells ?W = map (\<lambda>k. map (\<lambda>s. fill 0 (pivot_cell of_int ?R k s)) ?cols) (pivot_index ?cats ?R)"
    by (simp_all add: W)
  have three: "zip (index (summary_df p)) (column (summary_df p) ''Total'') =
      [(language_label l, Some t). (Some l, t) \<leftarrow> zip (index ?W) (map sum_list (cells ?W))]"
    by (simp only: sm iw cw summary_totals [OF D N S])
  from one cell three show ?thesis by blast
qed

theorem wide_frame_cells_and_totals_witness:
  "run_page argsort_stable
     [\<lparr>language_code = ''en'', subtopic = ''Policy'', article_count = 3\<rparr>,
      \<lparr>language_code = ''fr'', subtopic = ''Science'', article_count = 2\<rparr>]
     [''en'', ''fr''] [''Policy'', ''Science''] ''Stacked Bar'' ''Default Order'' =
   Inr \<lparr>df_wide = \<lparr>index = [Some ''en'', Some ''fr''], columns = [''Policy'', ''Science''],
                    cells = [[3, 0], [0, 2]]\<rparr>,
        chart = StackedBar
           [\<lparr>language_code = Some ''en'', subtopic = ''Policy'',
               article_count = 3, language_name = Some ''English''\<rparr>,
            \<lparr>language_code = Some ''fr'', subtopic = ''Science'',
               article_count = 2, language_name = Some ''French''\<rparr>],
        total_articles = 5, num_languages = 2, num_subtopics = 2,
        summary_df =
          \<lparr>index = [''English (en)'', ''French (fr)''],
             columns = [''Policy'', ''Science'', ''Total''],
             cells = [[3, 0, 3], [0, 2, 2]]\<rparr>\<rparr> \<and>
   zip [''English (en)'', ''French (fr)'']
     (column \<lparr>index = [''English (en)'', ''French (fr)''],
             columns = [''Policy'', ''Science'', ''Total''],
             cells = [[3, 0, 3], [0, 2, 2::rat]]\<rparr> ''Total'') =
   [(''English (en)'', Some 3), (''French (fr)'', Some 2)]"
  (is "run_page argsort_stable ?df ?langs ?subs ?ct ?so = Inr ?p \<and> ?z = ?v")
proof -
  have a: "run_page argsort_stable ?df ?langs ?subs ?ct ?so = Inr ?p" by code_simp
  have n: "\<forall>r\<in>set (filter_rows ?df ?langs ?subs). 0 \<le> article_count r"
    by (simp add: filter_rows_def)
  have s: "sum_list (map article_count (filter_rows ?df ?langs ?subs)) \<le> 2 ^ 53"
    by (simp add: filter_rows_def)
  note t = wide_frame_cells_and_totals [OF a n s, THEN conjunct2, THEN conjunct2]
  have e: "[(language_label l, Some t).
         (Some l, t) \<leftarrow> zip (index (df_wide ?p)) (map sum_list (cells (df_wide ?p)))] = ?v"
    by code_simp
  have i: "zip (index (summary_df ?p)) (column (summary_df ?p) ''Total'') = ?z"
    by simp
  have z: "?z = ?v"
    using i [symmetric] t e by (simp only:)
  show ?thesis
    by (intro conjI) (rule a z)+
qed

end
